theory Spec2Isabelle
  imports Complex_Main
begin

section \<open>Walk-forward volatility forecasting and risk aggregation (risk_model.ipynb)\<close>

text \<open>
  The notebook is a single script. Each part the properties below are about is embedded
  as a function of the values it reads, with every Python exception a value of
  \<open>py_error\<close>. Table rows are lists, tables are lists of rows.
\<close>

datatype py_error = IndexError | AssertionError | NameError | KeyError | RuntimeError

subsection \<open>Floating-point values\<close>

text \<open>
  A NumPy or PyTorch float is a real number or one of the three special values. The
  special values follow IEEE 754, which decides every branch the code takes on a
  degenerate input (\<open>0/0\<close>, \<open>x/0\<close>, the square root of a negative number, a
  comparison with NaN). There is one zero.
\<close>

datatype pyfloat = Fin real | PInf | NInf | NaN

text \<open>The sign of a non-NaN value, and the infinity (or NaN) with a given sign.\<close>

fun fsign :: "pyfloat \<Rightarrow> real" where
  "fsign (Fin a) = sgn a"
| "fsign PInf = 1"
| "fsign NInf = - 1"
| "fsign NaN = 0"

definition inf_of_sign :: "real \<Rightarrow> pyfloat" where
  "inf_of_sign s = (if s > 0 then PInf else if s < 0 then NInf else NaN)"

text \<open>
  Sum and product without rounding. They combine the two parts of the training loss,
  where only the shape of the formula is in question.
\<close>

fun fadd :: "pyfloat \<Rightarrow> pyfloat \<Rightarrow> pyfloat" where
  "fadd (Fin a) (Fin b) = Fin (a + b)"
| "fadd NaN _ = NaN"
| "fadd _ NaN = NaN"
| "fadd PInf NInf = NaN"
| "fadd NInf PInf = NaN"
| "fadd PInf _ = PInf"
| "fadd _ PInf = PInf"
| "fadd NInf _ = NInf"
| "fadd _ NInf = NInf"

fun fmul :: "pyfloat \<Rightarrow> pyfloat \<Rightarrow> pyfloat" where
  "fmul (Fin a) (Fin b) = Fin (a * b)"
| "fmul NaN _ = NaN"
| "fmul _ NaN = NaN"
| "fmul x y = inf_of_sign (fsign x * fsign y)"

text \<open>\<open>a < b\<close> on floats: false whenever an operand is NaN.\<close>

fun flt :: "pyfloat \<Rightarrow> pyfloat \<Rightarrow> bool" where
  "flt (Fin a) (Fin b) = (a < b)"
| "flt NaN _ = False"
| "flt _ NaN = False"
| "flt NInf b = (b \<noteq> NInf)"
| "flt a PInf = (a \<noteq> PInf)"
| "flt _ _ = False"

subsection \<open>Double precision\<close>

text \<open>
  NumPy computes on \<open>float64\<close>: every arithmetic operation and the square root return
  the exact result rounded to the nearest binary64 number, ties to even. \<open>rhe\<close> rounds
  a real to the nearest integer, ties to even. \<open>float_exponent m\<close> is the \<open>e\<close> with
  \<open>2\<^sup>e \<le> m < 2\<^sup>e\<^sup>+\<^sup>1\<close>, found by halving or doubling \<open>m\<close> (the bound 1100 on the
  number of steps covers the whole binary64 range). A binary64 number has 53
  significant bits, so its last bit is worth \<open>2\<^sup>e\<^sup>-\<^sup>5\<^sup>2\<close>; below \<open>2\<^sup>-\<^sup>1\<^sup>0\<^sup>2\<^sup>2\<close> the
  numbers are subnormal and the last bit stays at \<open>2\<^sup>-\<^sup>1\<^sup>0\<^sup>7\<^sup>4\<close>; a rounded magnitude
  above the largest binary64 number overflows to an infinity.
\<close>

definition rhe :: "real \<Rightarrow> int" where
  "rhe y =
     (if y - of_int \<lfloor>y\<rfloor> < 1 / 2 then \<lfloor>y\<rfloor>
      else if 1 / 2 < y - of_int \<lfloor>y\<rfloor> then \<lfloor>y\<rfloor> + 1
      else if even \<lfloor>y\<rfloor> then \<lfloor>y\<rfloor> else \<lfloor>y\<rfloor> + 1)"

fun exp_up :: "nat \<Rightarrow> real \<Rightarrow> nat" where
  "exp_up 0 m = 0"
| "exp_up (Suc n) m = (if 2 \<le> m then Suc (exp_up n (m / 2)) else 0)"

fun exp_down :: "nat \<Rightarrow> real \<Rightarrow> nat" where
  "exp_down 0 m = 0"
| "exp_down (Suc n) m = (if m < 1 then Suc (exp_down n (m * 2)) else 0)"

definition float_exponent :: "real \<Rightarrow> int" where
  "float_exponent m = (if 1 \<le> m then int (exp_up 1100 m) else - int (exp_down 1100 m))"

definition max_double :: real where
  "max_double = 2 ^ 1024 - 2 ^ 971"

definition round_double :: "real \<Rightarrow> pyfloat" where
  "round_double x =
     (if x = 0 then Fin 0
      else let e = max (float_exponent \<bar>x\<bar>) (- 1022);
               ulp = 2 powi (e - 52);
               r = of_int (rhe (x / ulp)) * ulp
           in if max_double < \<bar>r\<bar> then (if 0 < x then PInf else NInf) else Fin r)"


text \<open>The four operations and the square root of \<open>float64\<close>.\<close>

fun dadd :: "pyfloat \<Rightarrow> pyfloat \<Rightarrow> pyfloat" where
  "dadd (Fin a) (Fin b) = round_double (a + b)"
| "dadd NaN _ = NaN"
| "dadd _ NaN = NaN"
| "dadd PInf NInf = NaN"
| "dadd NInf PInf = NaN"
| "dadd PInf _ = PInf"
| "dadd _ PInf = PInf"
| "dadd NInf _ = NInf"
| "dadd _ NInf = NInf"

fun dmul :: "pyfloat \<Rightarrow> pyfloat \<Rightarrow> pyfloat" where
  "dmul (Fin a) (Fin b) = round_double (a * b)"
| "dmul NaN _ = NaN"
| "dmul _ NaN = NaN"
| "dmul x y = inf_of_sign (fsign x * fsign y)"

fun ddiv :: "pyfloat \<Rightarrow> pyfloat \<Rightarrow> pyfloat" where
  "ddiv (Fin a) (Fin b) = (if b = 0 then inf_of_sign (sgn a) else round_double (a / b))"
| "ddiv NaN _ = NaN"
| "ddiv _ NaN = NaN"
| "ddiv (Fin a) _ = Fin 0"
| "ddiv x (Fin b) = inf_of_sign (fsign x * (if b < 0 then - 1 else 1))"
| "ddiv _ _ = NaN"

fun dsqrt :: "pyfloat \<Rightarrow> pyfloat" where
  "dsqrt (Fin a) = (if a < 0 then NaN else round_double (sqrt a))"
| "dsqrt PInf = PInf"
| "dsqrt _ = NaN"

text \<open>\<open>.sum()\<close> of a vector and the sums inside \<open>@\<close>: a running sum in index order.\<close>

definition dsum :: "pyfloat list \<Rightarrow> pyfloat" where
  "dsum xs = foldl dadd (Fin 0) xs"

text \<open>
  One rounding changes a positive number in the normal range by a factor between
  \<open>rho = 1 - 2\<^sup>-\<^sup>5\<^sup>3\<close> and its inverse. \<open>close_to k x y\<close>: \<open>y\<close> is \<open>x\<close> up to \<open>k\<close>
  such factors.
\<close>

definition rho :: real where
  "rho = 1 - 1 / 2 ^ 53"

definition close_to :: "nat \<Rightarrow> real \<Rightarrow> real \<Rightarrow> bool" where
  "close_to k x y \<longleftrightarrow> rho ^ k * x \<le> y \<and> y \<le> x / rho ^ k"

subsection \<open>Sequence windower: \<open>create_sequences\<close>\<close>

text \<open>\<open>df.iloc[i]\<close>: positional row access; a negative position counts from the end.\<close>

definition iloc_row :: "'a list \<Rightarrow> int \<Rightarrow> py_error + 'a" where
  "iloc_row df i =
     (if 0 \<le> i \<and> i < int (length df) then Inr (df ! nat i)
      else if i < 0 \<and> 0 \<le> int (length df) + i then Inr (df ! nat (int (length df) + i))
      else Inl IndexError)"

text \<open>\<open>df.iloc[a:b]\<close> for non-negative bounds: the rows at positions \<open>a \<le> k < b\<close> that exist.\<close>

definition iloc_slice :: "'a list \<Rightarrow> nat \<Rightarrow> nat \<Rightarrow> 'a list" where
  "iloc_slice df a b = take (b - a) (drop a df)"

text \<open>
  The body of \<open>for i in range(len(X_df) - seq_len)\<close>, over the remaining values of
  \<open>i\<close>, with the two accumulators \<open>Xs\<close> and \<open>Ys\<close>.
\<close>

fun create_sequences_loop ::
  "'a list \<Rightarrow> 'b list \<Rightarrow> nat \<Rightarrow> nat list \<Rightarrow> 'a list list \<times> 'b list
     \<Rightarrow> py_error + ('a list list \<times> 'b list)" where
  "create_sequences_loop X_df Y_df seq_len [] acc = Inr acc"
| "create_sequences_loop X_df Y_df seq_len (i # rest) (Xs, Ys) =
     (case iloc_row Y_df (int i + int seq_len - 1) of
        Inl e \<Rightarrow> Inl e
      | Inr y \<Rightarrow>
          create_sequences_loop X_df Y_df seq_len rest
            (Xs @ [iloc_slice X_df i (i + seq_len)], Ys @ [y]))"

definition create_sequences ::
  "'a list \<Rightarrow> 'b list \<Rightarrow> nat \<Rightarrow> py_error + ('a list list \<times> 'b list)" where
  "create_sequences X_df Y_df seq_len =
     create_sequences_loop X_df Y_df seq_len [0 ..< length X_df - seq_len] ([], [])"

text \<open>
  The call site: \<open>X_all, y_all = create_sequences(features, targets, sequence_length)\<close>,
  \<open>N = len(X_all)\<close>, \<open>assert N > 0\<close>. This runs before the walk-forward loop.
\<close>

definition build_windows ::
  "'a list \<Rightarrow> 'b list \<Rightarrow> nat \<Rightarrow> py_error + ('a list list \<times> 'b list)" where
  "build_windows features targets sequence_length =
     (case create_sequences features targets sequence_length of
        Inl e \<Rightarrow> Inl e
      | Inr (X_all, y_all) \<Rightarrow>
          if length X_all > 0 then Inr (X_all, y_all) else Inl AssertionError)"

subsection \<open>Directional accuracy and its aggregate\<close>

text \<open>
  Lines \<open>dir_acc = None\<close> to \<open>dir_acc = (true_direction == pred_direction).astype(float)\<close>
  of the walk-forward step. \<open>y_all[pred_idx - horizon]\<close> is a row access by a
  non-negative integer; \<open>y_pred_mean0\<close> and \<open>y_true0\<close> are \<open>y_pred_mean[0]\<close> and
  \<open>y_true[0]\<close>. \<open>None\<close> is Python's \<open>None\<close>.
\<close>

definition np_sign :: "real \<Rightarrow> real" where
  "np_sign x = (if x < 0 then - 1 else if x = 0 then 0 else 1)"

definition directional_accuracy ::
  "nat \<Rightarrow> nat \<Rightarrow> real list list \<Rightarrow> real list \<Rightarrow> real list \<Rightarrow> py_error + real list option" where
  "directional_accuracy pred_idx horizon y_all y_pred_mean0 y_true0 =
     (if pred_idx \<ge> horizon then
        (case iloc_row y_all (int pred_idx - int horizon) of
           Inl e \<Rightarrow> Inl e
         | Inr y_true_current \<Rightarrow>
             let y_true_future = y_true0;
                 pred_direction = map2 (\<lambda>p c. np_sign (p - c)) y_pred_mean0 y_true_current;
                 true_direction = map2 (\<lambda>f c. np_sign (f - c)) y_true_future y_true_current
             in Inr (Some (map2 (\<lambda>t p. if t = p then 1 else 0) true_direction pred_direction)))
      else Inr None)"

subsection \<open>Allocation weights\<close>

text \<open>
  \<open>weights = 1 / (y_pred_std[0] + 1e-6)\<close> followed by \<open>weights /= weights.sum()\<close>. The
  literal \<open>1e-6\<close> is the binary64 number nearest to \<open>10\<^sup>-\<^sup>6\<close>.
\<close>

definition allocation_weights :: "pyfloat list \<Rightarrow> pyfloat list" where
  "allocation_weights y_pred_std0 =
     (let weights = map (\<lambda>s. ddiv (Fin 1) (dadd s (round_double (1 / 1000000)))) y_pred_std0
      in map (\<lambda>w. ddiv w (dsum weights)) weights)"

subsection \<open>Risk aggregator: correlation matrix and portfolio volatility\<close>

text \<open>
  A matrix is the list of its rows. \<open>cov_matrix\<close> is the latest slice of the
  exponentially weighted covariance, reshaped to \<open>asset_count \<times> asset_count\<close>; every
  vector below has \<open>asset_count\<close> entries, so the shapes of all NumPy operands agree.
\<close>

type_synonym matrix = "pyfloat list list"

definition ncols :: "'a list list \<Rightarrow> nat" where
  "ncols m = (case m of [] \<Rightarrow> 0 | r # _ \<Rightarrow> length r)"

text \<open>\<open>np.diag\<close> of a square 2-D array: its main diagonal.\<close>

definition np_diag_of :: "matrix \<Rightarrow> pyfloat list" where
  "np_diag_of m = map (\<lambda>i. m ! i ! i) [0 ..< length m]"


definition np_outer :: "pyfloat list \<Rightarrow> pyfloat list \<Rightarrow> matrix" where
  "np_outer a b = map (\<lambda>x. map (\<lambda>y. dmul x y) b) a"

text \<open>Elementwise division of two arrays of the same shape.\<close>

definition mat_div :: "matrix \<Rightarrow> matrix \<Rightarrow> matrix" where
  "mat_div a b = map2 (\<lambda>ra rb. map2 ddiv ra rb) a b"

text \<open>\<open>np.nan_to_num(x, nan=0, posinf=1, neginf=-1)\<close> and \<open>np.clip(x, -1, 1)\<close> on one entry.\<close>

fun nan_to_num :: "pyfloat \<Rightarrow> pyfloat" where
  "nan_to_num NaN = Fin 0"
| "nan_to_num PInf = Fin 1"
| "nan_to_num NInf = Fin (- 1)"
| "nan_to_num (Fin a) = Fin a"

fun np_clip :: "pyfloat \<Rightarrow> pyfloat" where
  "np_clip (Fin a) = Fin (min (max a (- 1)) 1)"
| "np_clip PInf = Fin 1"
| "np_clip NInf = Fin (- 1)"
| "np_clip NaN = NaN"

text \<open>Step 7 of the notebook: \<open>variances\<close>, \<open>stds\<close> and the three assignments to \<open>corr_matrix\<close>.\<close>

definition corr_matrix :: "matrix \<Rightarrow> matrix" where
  "corr_matrix cov_matrix =
     (let variances = np_diag_of cov_matrix;
          stds = map dsqrt variances;
          corr1 = mat_div cov_matrix (np_outer stds stds);
          corr2 = map (map nan_to_num) corr1
      in map (map np_clip) corr2)"





text \<open>Vocabulary for the properties: a matrix of dimension \<open>n\<close>, and symmetry.\<close>

definition square :: "nat \<Rightarrow> 'a list list \<Rightarrow> bool" where
  "square n m \<longleftrightarrow> length m = n \<and> (\<forall>r \<in> set m. length r = n)"

definition symmetric :: "'a list list \<Rightarrow> bool" where
  "symmetric m \<longleftrightarrow> (\<forall>i < length m. \<forall>j < length m. m ! i ! j = m ! j ! i)"

subsection \<open>Correlation estimate: the window of aggregated returns\<close>

text \<open>
  A pandas frame is the list of its rows, each row carrying its index label and one
  cell per column; a missing cell (NaN) is \<open>None\<close>. The label of row \<open>t\<close> of
  \<open>log_returns\<close> is its date, represented by the position \<open>t\<close> itself (dates are
  unique and ascending), so that \<open>log_returns.index[k]\<close> is \<open>k\<close>.
\<close>

type_synonym frame = "(nat \<times> real option list) list"

definition with_index :: "real option list list \<Rightarrow> frame" where
  "with_index rows = zip [0 ..< length rows] rows"

text \<open>The sum of a rolling window: missing as soon as one observation is missing.\<close>

fun sum_opt :: "real option list \<Rightarrow> real option" where
  "sum_opt [] = Some 0"
| "sum_opt (None # xs) = None"
| "sum_opt (Some x # xs) = (case sum_opt xs of None \<Rightarrow> None | Some s \<Rightarrow> Some (x + s))"

text \<open>
  \<open>df.rolling(window=w).sum()\<close>: \<open>min_periods\<close> defaults to the window length, so row
  \<open>t\<close> has a value only if the \<open>w\<close> rows ending at \<open>t\<close> exist and are all present.
  Labels are kept.
\<close>

definition rolling_sum :: "nat \<Rightarrow> frame \<Rightarrow> frame" where
  "rolling_sum w df =
     map (\<lambda>t. (fst (df ! t),
                if t + 1 < w then map (\<lambda>_. None) (snd (df ! t))
                else map (\<lambda>c. sum_opt (map (\<lambda>k. snd (df ! k) ! c) [t + 1 - w ..< t + 1]))
                         [0 ..< length (snd (df ! t))]))
         [0 ..< length df]"

text \<open>\<open>df.dropna()\<close>: the rows without a missing cell, with their labels.\<close>

definition dropna :: "frame \<Rightarrow> (nat \<times> real list) list" where
  "dropna df = map (\<lambda>(d, row). (d, map the row)) (filter (\<lambda>(d, row). None \<notin> set row) df)"

text \<open>
  Steps 2 to 4 of the notebook: \<open>log7\<close>, \<open>log7_window = log7.iloc[: pred_idx +
  sequence_length]\<close> and \<open>window_data = np.exp(log7_window) - 1\<close>.
\<close>

definition log7 :: "nat \<Rightarrow> real option list list \<Rightarrow> (nat \<times> real list) list" where
  "log7 horizon log_returns = dropna (rolling_sum horizon (with_index log_returns))"

definition log7_window ::
  "nat \<Rightarrow> real option list list \<Rightarrow> nat \<Rightarrow> nat \<Rightarrow> (nat \<times> real list) list" where
  "log7_window horizon log_returns pred_idx sequence_length =
     take (pred_idx + sequence_length) (log7 horizon log_returns)"

definition window_data ::
  "nat \<Rightarrow> real option list list \<Rightarrow> nat \<Rightarrow> nat \<Rightarrow> (nat \<times> real list) list" where
  "window_data horizon log_returns pred_idx sequence_length =
     map (\<lambda>(d, row). (d, map (\<lambda>x. exp x - 1) row))
         (log7_window horizon log_returns pred_idx sequence_length)"

text \<open>
  Steps 5 and 6. The exponentially weighted covariance is pandas code: it enters as the
  parameter \<open>ewm_cov_fn\<close>, which maps the span and a frame to one covariance matrix
  per row label. \<open>window_data.index[-1]\<close> raises IndexError on an empty frame and
  \<open>.loc\<close> raises KeyError on a label that is not there.
\<close>

definition cov_matrix_of ::
  "(nat \<Rightarrow> (nat \<times> real list) list \<Rightarrow> (nat \<times> matrix) list)
     \<Rightarrow> nat \<Rightarrow> real option list list \<Rightarrow> nat \<Rightarrow> nat \<Rightarrow> py_error + matrix" where
  "cov_matrix_of ewm_cov_fn horizon log_returns pred_idx sequence_length =
     (let wd = window_data horizon log_returns pred_idx sequence_length;
          ewm_cov = ewm_cov_fn horizon wd
      in if wd = [] then Inl IndexError
         else (let last_timestamp = fst (last wd)
               in case map_of ewm_cov last_timestamp of
                    None \<Rightarrow> Inl KeyError
                  | Some cov_matrix \<Rightarrow> Inr cov_matrix))"

text \<open>The date stored in the Step Result: \<open>log_returns.index[pred_idx + sequence_length - 1]\<close>.\<close>

definition step_date :: "real option list list \<Rightarrow> nat \<Rightarrow> nat \<Rightarrow> py_error + nat" where
  "step_date log_returns pred_idx sequence_length =
     (case iloc_row (map fst (with_index log_returns)) (int pred_idx + int sequence_length - 1) of
        Inl e \<Rightarrow> Inl e
      | Inr d \<Rightarrow> Inr d)"

text \<open>
  The aggregation in the words of the specification, for comparison: the rows up to and
  including the anchor date, without the rows that have a missing cell, cut into
  consecutive blocks of \<open>h\<close> days that do not overlap, each block summed column by
  column.
\<close>

fun blocks :: "nat \<Rightarrow> nat \<Rightarrow> 'a list \<Rightarrow> 'a list list" where
  "blocks h 0 xs = []"
| "blocks h (Suc fuel) xs =
     (if h = 0 \<or> length xs < h then [] else take h xs # blocks h fuel (drop h xs))"

definition column_sums :: "real list list \<Rightarrow> real list" where
  "column_sums rows = map (\<lambda>c. sum_list (map (\<lambda>r. r ! c) rows)) [0 ..< ncols rows]"

definition spec_nonoverlapping_sums :: "nat \<Rightarrow> real option list list \<Rightarrow> nat \<Rightarrow> real list list" where
  "spec_nonoverlapping_sums h log_returns anchor =
     (let history = map snd (dropna (with_index (take (anchor + 1) log_returns)))
      in map column_sums (blocks h (length history) history))"

subsection \<open>Composite training loss\<close>

text \<open>
  A batch tensor of shape \<open>(B, A)\<close> is the list of its \<open>B\<close> rows. \<open>y[:, 1:]\<close> drops the
  first column, \<open>y[:, :-1]\<close> drops the last one. The mean of a tensor without elements
  is NaN. \<open>torch.sign\<close> is the function \<open>np_sign\<close>.
\<close>

definition tensor_mean :: "real list \<Rightarrow> pyfloat" where
  "tensor_mean xs = (if xs = [] then NaN else Fin (sum_list xs / real (length xs)))"

definition elementwise :: "(real \<Rightarrow> real \<Rightarrow> real) \<Rightarrow> real list list \<Rightarrow> real list list \<Rightarrow> real list list" where
  "elementwise f a b = map2 (\<lambda>ra rb. map2 f ra rb) a b"

text \<open>\<open>nn.MSELoss()\<close> with its default reduction: the mean of the squared differences.\<close>

definition mse_loss :: "real list list \<Rightarrow> real list list \<Rightarrow> pyfloat" where
  "mse_loss input target = tensor_mean (concat (elementwise (\<lambda>x y. (x - y)\<^sup>2) input target))"

text \<open>
  \<open>nn.BCEWithLogitsLoss()\<close> with its default reduction: the mean over all elements of
  \<open>- (z \<cdot> ln \<sigma>(x) + (1 - z) \<cdot> ln (1 - \<sigma>(x)))\<close> for logit \<open>x\<close> and label \<open>z\<close>.
\<close>

definition sigmoid :: "real \<Rightarrow> real" where
  "sigmoid x = 1 / (1 + exp (- x))"

definition bce_term :: "real \<Rightarrow> real \<Rightarrow> real" where
  "bce_term x z = - (z * ln (sigmoid x) + (1 - z) * ln (1 - sigmoid x))"

definition bce_with_logits_loss :: "real list list \<Rightarrow> real list list \<Rightarrow> pyfloat" where
  "bce_with_logits_loss input target = tensor_mean (concat (elementwise bce_term input target))"

text \<open>The four assignments of the batch loop that build \<open>loss\<close> from \<open>y_pred\<close> and \<open>y_batch\<close>.\<close>

definition true_dir :: "real list list \<Rightarrow> real list list" where
  "true_dir y_batch =
     elementwise (\<lambda>a b. np_sign (a - b)) (map (drop 1) y_batch) (map butlast y_batch)"

definition pred_dir :: "real list list \<Rightarrow> real list list \<Rightarrow> real list list" where
  "pred_dir y_pred y_batch =
     elementwise (\<lambda>a b. np_sign (a - b)) (map (drop 1) y_pred) (map butlast y_batch)"

definition composite_loss :: "real \<Rightarrow> real list list \<Rightarrow> real list list \<Rightarrow> pyfloat" where
  "composite_loss lambda_dir y_pred y_batch =
     (let mse = mse_loss y_pred y_batch;
          bce = bce_with_logits_loss (pred_dir y_pred y_batch)
                  (map (map (\<lambda>t. if t > 0 then 1 else 0)) (true_dir y_batch))
      in fadd mse (fmul (Fin lambda_dir) bce))"

text \<open>
  The loss in the words of the specification, entry by entry, for comparison: for row
  \<open>b\<close> and \<open>j < A - 1\<close> the logit is the sign of predicted column \<open>j + 1\<close> minus true
  column \<open>j\<close>, and the label says whether the sign of true column \<open>j + 1\<close> minus true
  column \<open>j\<close> is positive.
\<close>

definition spec_logit :: "real list list \<Rightarrow> real list list \<Rightarrow> nat \<Rightarrow> nat \<Rightarrow> real" where
  "spec_logit predicted true b j = np_sign (predicted ! b ! (j + 1) - true ! b ! j)"

definition spec_label :: "real list list \<Rightarrow> nat \<Rightarrow> nat \<Rightarrow> real" where
  "spec_label true b j = (if np_sign (true ! b ! (j + 1) - true ! b ! j) > 0 then 1 else 0)"

definition spec_composite_loss :: "nat \<Rightarrow> nat \<Rightarrow> real \<Rightarrow> real list list \<Rightarrow> real list list \<Rightarrow> pyfloat" where
  "spec_composite_loss B A lambda_dir predicted true =
     fadd (tensor_mean (concat (map (\<lambda>b. map (\<lambda>j. (predicted ! b ! j - true ! b ! j)\<^sup>2) [0 ..< A])
                                    [0 ..< B])))
          (fmul (Fin lambda_dir)
             (tensor_mean (concat (map (\<lambda>b. map (\<lambda>j. bce_term (spec_logit predicted true b j)
                                                              (spec_label true b j))
                                                [0 ..< A - 1])
                                       [0 ..< B]))))"

subsection \<open>Walk-forward training: parameters, optimizer and early stopping\<close>

text \<open>
  PyTorch tensors are mutable and shared, so they live in a store: an address holds the
  current value of one tensor. A module is the list of its named parameters, each the
  address of its tensor.
\<close>

type_synonym addr = nat
type_synonym tensor = "real list"

record module =
  named_parameters :: "(string \<times> addr) list"

definition parameters :: "module \<Rightarrow> addr list" where
  "parameters model = map snd (named_parameters model)"

text \<open>
  \<open>model.state_dict()\<close> returns a dictionary from names to tensors that share their
  storage with the parameters (PyTorch: the returned object is a shallow copy and
  contains references to the module's parameters and buffers). Nothing is copied: the
  dictionary holds the parameters' own addresses.
\<close>

definition state_dict :: "module \<Rightarrow> (string \<times> addr) list" where
  "state_dict model = named_parameters model"

text \<open>
  \<open>model.load_state_dict(sd)\<close>: every parameter is overwritten in place with the
  current value of the tensor stored under its name (\<open>param.copy_(sd[name])\<close>); a missing
  or an unexpected key raises RuntimeError.
\<close>

fun copy_params ::
  "(string \<times> addr) list \<Rightarrow> (string \<times> addr) list \<Rightarrow> (addr \<Rightarrow> tensor) \<Rightarrow> py_error + (addr \<Rightarrow> tensor)" where
  "copy_params [] sd h = Inr h"
| "copy_params ((name, a) # ps) sd h =
     (case map_of sd name of
        None \<Rightarrow> Inl RuntimeError
      | Some src \<Rightarrow> copy_params ps sd (h(a := h src)))"

definition load_state_dict ::
  "module \<Rightarrow> (string \<times> addr) list \<Rightarrow> (addr \<Rightarrow> tensor) \<Rightarrow> py_error + (addr \<Rightarrow> tensor)" where
  "load_state_dict model sd h =
     (if list_ex (\<lambda>k. k \<notin> set (map fst (named_parameters model))) (map fst sd)
      then Inl RuntimeError
      else copy_params (named_parameters model) sd h)"

text \<open>
  \<open>optim.Adam(params, lr=lr)\<close> with the default \<open>betas = (0.9, 0.999)\<close>,
  \<open>eps = 1e-8\<close> and no weight decay. The optimizer's state (step count, first and
  second moment estimate of each parameter) is empty at construction and created, as
  zeros, at the first \<open>step()\<close> that meets the parameter.
\<close>

record adam_param_state =
  step_count :: nat
  exp_avg :: tensor
  exp_avg_sq :: tensor

record adam =
  params :: "addr list"
  lr :: real
  state :: "addr \<rightharpoonup> adam_param_state"

definition Adam :: "addr list \<Rightarrow> real \<Rightarrow> adam" where
  "Adam ps rate = \<lparr>params = ps, lr = rate, state = Map.empty\<rparr>"

definition adam_update ::
  "real \<Rightarrow> adam_param_state \<Rightarrow> tensor \<Rightarrow> tensor \<Rightarrow> adam_param_state \<times> tensor" where
  "adam_update rate st grad p =
     (let k = step_count st + 1;
          m = map2 (\<lambda>m g. (9 / 10) * m + (1 / 10) * g) (exp_avg st) grad;
          v = map2 (\<lambda>v g. (999 / 1000) * v + (1 / 1000) * (g * g)) (exp_avg_sq st) grad;
          bias_correction1 = 1 - (9 / 10) ^ k;
          bias_correction2 = 1 - (999 / 1000) ^ k;
          step_size = rate / bias_correction1
      in (\<lparr>step_count = k, exp_avg = m, exp_avg_sq = v\<rparr>,
          map2 (\<lambda>x (m, v). x - step_size * (m / (sqrt v / sqrt bias_correction2 + 1 / 100000000)))
               p (zip m v)))"

fun adam_step_params ::
  "real \<Rightarrow> (addr \<times> tensor) list \<Rightarrow> (addr \<rightharpoonup> adam_param_state) \<Rightarrow> (addr \<Rightarrow> tensor)
     \<Rightarrow> (addr \<rightharpoonup> adam_param_state) \<times> (addr \<Rightarrow> tensor)" where
  "adam_step_params rate [] st h = (st, h)"
| "adam_step_params rate ((a, grad) # rest) st h =
     (let s0 = (case st a of
                  None \<Rightarrow> \<lparr>step_count = 0, exp_avg = map (\<lambda>_. 0) (h a),
                            exp_avg_sq = map (\<lambda>_. 0) (h a)\<rparr>
                | Some s \<Rightarrow> s);
          (s1, p1) = adam_update rate s0 grad (h a)
      in adam_step_params rate rest (st(a \<mapsto> s1)) (h(a := p1)))"

text \<open>\<open>optimizer.step()\<close>, given the gradients that \<open>loss.backward()\<close> left on the parameters.\<close>

definition optimizer_step :: "adam \<Rightarrow> tensor list \<Rightarrow> (addr \<Rightarrow> tensor) \<Rightarrow> adam \<times> (addr \<Rightarrow> tensor)" where
  "optimizer_step opt grads h =
     (let (st, h') = adam_step_params (lr opt) (zip (params opt) grads) (state opt) h
      in (opt\<lparr>state := st\<rparr>, h'))"

text \<open>
  The notebook's variables that training reads and writes. \<open>loss\<close> is unbound
  (\<open>None\<close>) until a batch has been processed. \<open>rng\<close> is the state of the random
  generators that \<open>set_seed\<close> resets.
\<close>

record 'r world =
  store :: "addr \<Rightarrow> tensor"
  rng :: 'r
  optimizer :: adam
  loss :: "pyfloat option"
  best_loss :: pyfloat
  wait :: nat
  best_model_state :: "(string \<times> addr) list"

text \<open>
  The network itself is a parameter of the loop. \<open>forward_backward\<close> stands for the
  lines from \<open>optimizer.zero_grad()\<close> to \<open>loss.backward()\<close>: from the current parameter
  values, one batch and the random state (dropout) it gives \<open>loss.item()\<close>, the
  gradient of every parameter and the new random state. \<open>manual_seed\<close> is the random
  state that \<open>set_seed(seed)\<close> installs.
\<close>

record ('b, 'r) net =
  forward_backward :: "tensor list \<Rightarrow> 'b \<Rightarrow> 'r \<Rightarrow> pyfloat \<times> tensor list \<times> 'r"
  manual_seed :: "nat \<Rightarrow> 'r"

definition train_batch :: "('b, 'r) net \<Rightarrow> module \<Rightarrow> 'r world \<Rightarrow> 'b \<Rightarrow> 'r world" where
  "train_batch nt model w batch =
     (let (l, grads, r) = forward_backward nt (map (store w) (parameters model)) batch (rng w);
          (opt, h) = optimizer_step (optimizer w) grads (store w)
      in w\<lparr>store := h, rng := r, optimizer := opt, loss := Some l\<rparr>)"

text \<open>\<open>for X_batch, y_batch in train_loader\<close>: the batches in the loader's order.\<close>

fun train_epoch :: "('b, 'r) net \<Rightarrow> module \<Rightarrow> 'b list \<Rightarrow> 'r world \<Rightarrow> 'r world" where
  "train_epoch nt model [] w = w"
| "train_epoch nt model (batch # rest) w = train_epoch nt model rest (train_batch nt model w batch)"

text \<open>
  \<open>for epoch in range(num_epochs)\<close> with its \<open>break\<close>, by the number of epochs left.
  Reading \<open>loss\<close> while it is unbound raises NameError.
\<close>

fun training_loop ::
  "('b, 'r) net \<Rightarrow> module \<Rightarrow> 'b list \<Rightarrow> nat \<Rightarrow> nat \<Rightarrow> 'r world \<Rightarrow> py_error + 'r world" where
  "training_loop nt model train_loader patience 0 w = Inr w"
| "training_loop nt model train_loader patience (Suc epochs_left) w =
     (let w1 = train_epoch nt model train_loader w
      in case loss w1 of
           None \<Rightarrow> Inl NameError
         | Some l \<Rightarrow>
             if flt l (best_loss w1)
             then training_loop nt model train_loader patience epochs_left
                    (w1\<lparr>best_loss := l, wait := 0, best_model_state := state_dict model\<rparr>)
             else (let w2 = w1\<lparr>wait := wait w1 + 1\<rparr>
                   in if wait w2 \<ge> patience then Inr w2
                      else training_loop nt model train_loader patience epochs_left w2))"

text \<open>
  The four assignments before the training loop: \<open>optimizer = optim.Adam(model.parameters(),
  lr=learning_rate)\<close>, \<open>best_loss = float('inf')\<close>, \<open>wait = 0\<close> and
  \<open>best_model_state = model.state_dict()\<close>.
\<close>

definition start_training :: "module \<Rightarrow> real \<Rightarrow> 'r world \<Rightarrow> 'r world" where
  "start_training model learning_rate w =
     w\<lparr>optimizer := Adam (parameters model) learning_rate,
       best_loss := PInf, wait := 0, best_model_state := state_dict model\<rparr>"

text \<open>
  From \<open>optimizer = optim.Adam(...)\<close> to \<open>model.load_state_dict(best_model_state)\<close>: what
  one walk-forward step does to the model before it predicts.
\<close>

definition fit ::
  "('b, 'r) net \<Rightarrow> module \<Rightarrow> 'b list \<Rightarrow> nat \<Rightarrow> nat \<Rightarrow> real \<Rightarrow> 'r world \<Rightarrow> py_error + 'r world" where
  "fit nt model train_loader num_epochs patience learning_rate w =
     (case training_loop nt model train_loader patience num_epochs
             (start_training model learning_rate w) of
        Inl e \<Rightarrow> Inl e
      | Inr w1 \<Rightarrow>
          (case load_state_dict model (best_model_state w1) (store w1) of
             Inl e \<Rightarrow> Inl e
           | Inr h \<Rightarrow> Inr (w1\<lparr>store := h\<rparr>)))"

text \<open>
  One iteration of \<open>for t in range(n_steps)\<close>, as far as it writes these variables:
  \<open>set_seed(42 + t)\<close>, the loader of step \<open>t\<close> (built from the first
  \<open>initial_train_size + t\<close> windows), then \<open>fit\<close>. The rest of the iteration
  (prediction, metrics, risk aggregation) reads the parameters and only advances the
  random state, which the next iteration seeds again.
\<close>

definition walk_forward_step ::
  "('b, 'r) net \<Rightarrow> module \<Rightarrow> (nat \<Rightarrow> 'b list) \<Rightarrow> nat \<Rightarrow> nat \<Rightarrow> real \<Rightarrow> nat \<Rightarrow> 'r world
     \<Rightarrow> py_error + 'r world" where
  "walk_forward_step nt model train_loader_of num_epochs patience learning_rate t w =
     fit nt model (train_loader_of t) num_epochs patience learning_rate
       (w\<lparr>rng := manual_seed nt (42 + t)\<rparr>)"

fun walk_forward ::
  "('b, 'r) net \<Rightarrow> module \<Rightarrow> (nat \<Rightarrow> 'b list) \<Rightarrow> nat \<Rightarrow> nat \<Rightarrow> real \<Rightarrow> nat list \<Rightarrow> 'r world
     \<Rightarrow> py_error + 'r world" where
  "walk_forward nt model train_loader_of num_epochs patience learning_rate [] w = Inr w"
| "walk_forward nt model train_loader_of num_epochs patience learning_rate (t # ts) w =
     (case walk_forward_step nt model train_loader_of num_epochs patience learning_rate t w of
        Inl e \<Rightarrow> Inl e
      | Inr w' \<Rightarrow> walk_forward nt model train_loader_of num_epochs patience learning_rate ts w')"

subsection \<open>Step results and the summary\<close>

text \<open>
  The Step Result appended at the end of each step, and the summary cell's
  \<open>[res['dir_acc'] for res in results if res['dir_acc'] is not None]\<close>.
\<close>

record step_result =
  step :: nat
  mae :: "real list"
  rmse :: "real list"
  dir_acc :: "real list option"
  vol_pred_port :: pyfloat
  vol_true_port :: pyfloat
  y_pred_std :: "pyfloat list"
  weights :: "pyfloat list"
  cov_pred :: "pyfloat list list"

fun dir_acc_all :: "step_result list \<Rightarrow> real list list" where
  "dir_acc_all [] = []"
| "dir_acc_all (res # results) =
     (case dir_acc res of
        None \<Rightarrow> dir_acc_all results
      | Some d \<Rightarrow> d # dir_acc_all results)"

subsection \<open>Properties of the sequence windower\<close>

lemma create_sequences_loop_result:
  assumes "\<forall>i \<in> set idxs. i + seq_len \<le> length Y_df \<and> Y_df \<noteq> []"
  shows "create_sequences_loop X_df Y_df seq_len idxs (Xs, Ys) =
           Inr (Xs @ map (\<lambda>i. take seq_len (drop i X_df)) idxs,
                Ys @ map (\<lambda>i. if i + seq_len = 0 then last Y_df
                               else Y_df ! (i + seq_len - 1)) idxs)"
  using assms
proof (induction idxs arbitrary: Xs Ys)
  case Nil
  then show ?case by simp
next
  case (Cons i rest)
  from Cons.prems have bound: "i + seq_len \<le> length Y_df" and ne: "Y_df \<noteq> []"
    by simp_all
  have row: "iloc_row Y_df (int i + int seq_len - 1) =
               Inr (if i + seq_len = 0 then last Y_df else Y_df ! (i + seq_len - 1))"
  proof (cases "i + seq_len = 0")
    case True
    moreover have "nat (int (length Y_df) - 1) = length Y_df - 1"
      by linarith
    ultimately show ?thesis
      using ne by (simp add: iloc_row_def last_conv_nth)
  next
    case False
    then have "nat (int i + int seq_len - 1) = i + seq_len - 1"
      by linarith
    with False bound show ?thesis
      by (simp add: iloc_row_def) linarith
  qed
  from Cons.prems have "\<forall>i \<in> set rest. i + seq_len \<le> length Y_df \<and> Y_df \<noteq> []"
    by simp
  from Cons.IH [OF this] row show ?case
    by (simp add: iloc_slice_def)
qed

text \<open>
  C3. For an aligned feature table (as many target rows as feature rows) with \<open>R\<close> rows
  and a window length \<open>L\<close>, \<open>create_sequences\<close> returns exactly \<open>max (R - L) 0\<close>
  windows; window \<open>i\<close> holds the feature rows \<open>[i, i + L)\<close> and its target is the target
  row at index \<open>i + L - 1\<close> (whenever that is a row index, i.e. not \<open>-1\<close>); and the
  assertion that follows the call fails, before the walk-forward loop, exactly when
  \<open>R \<le> L\<close>, which is exactly when no window is produced.
\<close>

theorem create_sequences_windows:
  assumes "length Y_df = length X_df"
  shows "\<exists>Xs Ys. create_sequences X_df Y_df L = Inr (Xs, Ys)
           \<and> int (length Xs) = max (int (length X_df) - int L) 0
           \<and> length Ys = length Xs
           \<and> (\<forall>i < length Xs.
                 Xs ! i = take L (drop i X_df)
               \<and> length (Xs ! i) = L
               \<and> (\<forall>k < L. Xs ! i ! k = X_df ! (i + k))
               \<and> (0 < i + L \<longrightarrow> Ys ! i = Y_df ! (i + L - 1)))
           \<and> (length X_df \<le> L \<longleftrightarrow> Xs = [])
           \<and> (length X_df \<le> L \<longleftrightarrow> build_windows X_df Y_df L = Inl AssertionError)"
proof -
  let ?n = "length X_df - L"
  let ?Xs = "map (\<lambda>i. take L (drop i X_df)) [0 ..< ?n]"
  let ?Ys = "map (\<lambda>i. if i + L = 0 then last Y_df else Y_df ! (i + L - 1)) [0 ..< ?n]"
  have "\<forall>i \<in> set [0 ..< ?n]. i + L \<le> length Y_df \<and> Y_df \<noteq> []"
    using assms by auto
  from create_sequences_loop_result [OF this, of X_df "[]" "[]"]
  have res: "create_sequences X_df Y_df L = Inr (?Xs, ?Ys)"
    by (simp add: create_sequences_def)
  have rows: "\<forall>i < length ?Xs.
                 ?Xs ! i = take L (drop i X_df)
               \<and> length (?Xs ! i) = L
               \<and> (\<forall>k < L. ?Xs ! i ! k = X_df ! (i + k))
               \<and> (0 < i + L \<longrightarrow> ?Ys ! i = Y_df ! (i + L - 1))"
    by auto
  have cnt: "int (length ?Xs) = max (int (length X_df) - int L) 0"
    by simp
  have empty: "length X_df \<le> L \<longleftrightarrow> ?Xs = []"
    by auto
  have fatal: "length X_df \<le> L \<longleftrightarrow> build_windows X_df Y_df L = Inl AssertionError"
    using res by (auto simp: build_windows_def)
  have len: "length ?Ys = length ?Xs"
    by simp
  show ?thesis
    by (intro exI [of _ ?Xs] exI [of _ ?Ys] conjI) (rule res rows cnt len empty fatal)+
qed

theorem create_sequences_windows_witness:
  "create_sequences [[1], [2], [3], [4 :: int]] [[10], [20], [30], [40 :: int]] 2
     = Inr ([[[1], [2]], [[2], [3]]], [[20], [30]])
   \<and> build_windows [[1], [2 :: int]] [[10], [20 :: int]] 2 = Inl AssertionError"
proof -
  have a: "length [[10], [20], [30], [40 :: int]] = length [[1], [2], [3], [4 :: int]]"
    by simp
  have b: "length [[10], [20 :: int]] = length [[1], [2 :: int]]"
    by simp
  have c: "create_sequences [[1], [2], [3], [4 :: int]] [[10], [20], [30], [40 :: int]] 2
     = Inr ([[[1], [2]], [[2], [3]]], [[20], [30]])"
    by (simp add: create_sequences_def iloc_row_def iloc_slice_def upt_rec [of 0])
  from create_sequences_windows [OF b, of 2] c show ?thesis
    by simp
qed

subsection \<open>Properties of directional accuracy\<close>

lemma dir_acc_all_filter:
  "dir_acc_all results = map (\<lambda>r. the (dir_acc r)) (filter (\<lambda>r. dir_acc r \<noteq> None) results)"
  by (induction results) (auto split: option.splits)

text \<open>
  C9. A step whose prediction index is below \<open>horizon\<close> gets \<open>None\<close> as its
  directional accuracy, never a number; every other step (with its prediction index
  inside \<open>y_all\<close>) gets a value, one 0/1 indicator per asset; and the aggregate
  \<open>dir_acc_all\<close> holds exactly the values of the steps where the field is present, in
  order, so a step with \<open>None\<close> contributes nothing to it.
\<close>

theorem dir_acc_absent_iff:
  "(pred_idx < horizon \<longrightarrow>
      directional_accuracy pred_idx horizon y_all y_pred_mean0 y_true0 = Inr None)
   \<and> (horizon \<le> pred_idx \<and> pred_idx < length y_all \<longrightarrow>
        (\<exists>d. directional_accuracy pred_idx horizon y_all y_pred_mean0 y_true0 = Inr (Some d)
           \<and> length d = min (length y_true0) (min (length y_pred_mean0)
                              (length (y_all ! (pred_idx - horizon))))
           \<and> set d \<subseteq> {0, 1}))
   \<and> dir_acc_all results = map (\<lambda>r. the (dir_acc r)) (filter (\<lambda>r. dir_acc r \<noteq> None) results)
   \<and> length (dir_acc_all results) = length (filter (\<lambda>r. dir_acc r \<noteq> None) results)"
proof (intro conjI impI)
  assume "pred_idx < horizon"
  then show "directional_accuracy pred_idx horizon y_all y_pred_mean0 y_true0 = Inr None"
    by (simp add: directional_accuracy_def)
next
  assume a: "horizon \<le> pred_idx \<and> pred_idx < length y_all"
  then have idx: "iloc_row y_all (int pred_idx - int horizon) = Inr (y_all ! (pred_idx - horizon))"
    by (simp add: iloc_row_def nat_diff_distrib)
  let ?cur = "y_all ! (pred_idx - horizon)"
  let ?d = "map2 (\<lambda>t p. if t = p then 1 else (0::real))
              (map2 (\<lambda>f c. np_sign (f - c)) y_true0 ?cur)
              (map2 (\<lambda>p c. np_sign (p - c)) y_pred_mean0 ?cur)"
  have "directional_accuracy pred_idx horizon y_all y_pred_mean0 y_true0 = Inr (Some ?d)"
    using a idx by (simp add: directional_accuracy_def)
  moreover have "length ?d = min (length y_true0) (min (length y_pred_mean0) (length ?cur))"
    by simp
  moreover have "set ?d \<subseteq> {0, 1}"
    by (auto split: if_splits)
  ultimately show "\<exists>d. directional_accuracy pred_idx horizon y_all y_pred_mean0 y_true0 = Inr (Some d)
           \<and> length d = min (length y_true0) (min (length y_pred_mean0)
                              (length (y_all ! (pred_idx - horizon))))
           \<and> set d \<subseteq> {0, 1}"
    by blast
next
  show "dir_acc_all results = map (\<lambda>r. the (dir_acc r)) (filter (\<lambda>r. dir_acc r \<noteq> None) results)"
    by (rule dir_acc_all_filter)
next
  show "length (dir_acc_all results) = length (filter (\<lambda>r. dir_acc r \<noteq> None) results)"
    by (simp add: dir_acc_all_filter)
qed

theorem dir_acc_absent_iff_witness:
  "directional_accuracy 1 2 [[1], [2], [3]] [5 / 2] [3] = Inr None
   \<and> (\<exists>d. directional_accuracy 2 2 [[1], [2], [3]] [5 / 2] [3] = Inr (Some d) \<and> length d = 1)"
  using dir_acc_absent_iff [of 1 2 "[[1], [2], [3]]" "[5 / 2]" "[3]" "[]"]
        dir_acc_absent_iff [of 2 2 "[[1], [2], [3]]" "[5 / 2]" "[3]" "[]"]
  by auto

subsection \<open>Properties of rounding to double precision\<close>

lemma rhe_error: "\<bar>real_of_int (rhe y) - y\<bar> \<le> 1 / 2"
  unfolding rhe_def by (auto simp: abs_le_iff)


lemma rhe_nonpos: "y \<le> 0 \<Longrightarrow> rhe y \<le> 0"
proof -
  assume y: "y \<le> 0"
  show ?thesis
  proof (cases "y = 0")
    case True
    then show ?thesis by (simp add: rhe_def)
  next
    case False
    with y have "y < 0" by simp
    then have f: "\<lfloor>y\<rfloor> \<le> - 1"
      by (simp add: floor_le_iff)
    have "y - of_int \<lfloor>y\<rfloor> < 1"
      by linarith
    with f show ?thesis
      unfolding rhe_def by auto
  qed
qed

lemma exp_up_spec:
  "1 \<le> m \<Longrightarrow> m < 2 ^ Suc n \<Longrightarrow> 2 ^ exp_up n m \<le> m \<and> m < 2 ^ Suc (exp_up n m)"
proof (induction n arbitrary: m)
  case 0
  then show ?case by simp
next
  case (Suc n)
  show ?case
  proof (cases "2 \<le> m")
    case True
    with Suc.prems have "1 \<le> m / 2" and "m / 2 < 2 ^ Suc n"
      by simp_all
    from Suc.IH [OF this] True show ?thesis
      by (simp add: field_simps)
  next
    case False
    with Suc.prems show ?thesis by simp
  qed
qed

lemma exp_down_spec:
  "0 < m \<Longrightarrow> m < 1 \<Longrightarrow> 1 \<le> m * 2 ^ n \<Longrightarrow>
     1 \<le> m * 2 ^ exp_down n m \<and> m * 2 ^ exp_down n m < 2"
proof (induction n arbitrary: m)
  case 0
  then show ?case by simp
next
  case (Suc n)
  show ?case
  proof (cases "m * 2 < 1")
    case True
    with Suc.prems have "0 < m * 2" and "1 \<le> m * 2 * 2 ^ n"
      by (simp_all add: mult.assoc)
    from Suc.IH [OF this(1) True this(2)] Suc.prems(2) show ?thesis
      by (simp add: mult.assoc)
  next
    case False
    then have "exp_down n (m * 2) = 0"
      by (cases n) simp_all
    with False Suc.prems show ?thesis
      by simp
  qed
qed

lemma float_exponent_spec:
  assumes "2 powi (- 1100) \<le> m" and "m < 2 ^ 1101"
  shows "2 powi float_exponent m \<le> m \<and> m < 2 powi (float_exponent m + 1)"
proof (cases "1 \<le> m")
  case True
  from exp_up_spec [OF True, of 1100] assms(2)
  have "2 ^ exp_up 1100 m \<le> m \<and> m < 2 ^ Suc (exp_up 1100 m)"
    by simp
  with True show ?thesis
    by (simp add: float_exponent_def power_int_add)
next
  case False
  have pos: "0 < m"
    using assms(1) by (rule less_le_trans [rotated]) simp
  from assms(1) have "1 \<le> m * 2 ^ 1100"
    by (simp add: power_int_minus field_simps)
  from exp_down_spec [OF pos _ this] False
  have k: "1 \<le> m * 2 ^ exp_down 1100 m" "m * 2 ^ exp_down 1100 m < 2"
    by simp_all
  let ?k = "exp_down 1100 m"
  have "2 powi (- int ?k) \<le> m"
    using k(1) by (simp add: power_int_minus field_simps)
  moreover have "m < 2 powi (- int ?k + 1)"
  proof -
    have a: "(2::real) powi (1 - int ?k) = 2 powi 1 / 2 powi int ?k"
      by (rule power_int_diff) simp
    have b: "- int ?k + 1 = 1 - int ?k"
      by simp
    have c: "(2::real) powi 1 = 2"
      by simp
    have "m < 2 / 2 ^ ?k"
      using k(2) by (simp add: pos_less_divide_eq)
    then show ?thesis
      by (simp only: b a c power_int_of_nat)
  qed
  ultimately show ?thesis
    using False by (simp add: float_exponent_def)
qed


lemma round_double_rel:
  assumes lo: "2 powi (- 1022) \<le> \<bar>x\<bar>" and hi: "\<bar>x\<bar> \<le> 2 ^ 1023"
  shows "\<exists>d. \<bar>d\<bar> \<le> 1 / 2 ^ 53 \<and> round_double x = Fin (x * (1 + d))"
proof -
  let ?m = "\<bar>x\<bar>"
  let ?e = "float_exponent ?m"
  have mpos: "0 < ?m"
    using lo by (rule less_le_trans [rotated]) simp
  then have x0: "x \<noteq> 0"
    by simp
  have "(2::real) powi (- 1100) \<le> 2 powi (- 1022)"
    by (rule power_int_increasing) simp_all
  with lo have lo': "2 powi (- 1100) \<le> ?m"
    by simp
  have "(2::real) ^ 1023 < 2 ^ 1101"
    by (rule power_strict_increasing) simp_all
  with hi have hi': "?m < 2 ^ 1101"
    by simp
  from float_exponent_spec [OF lo' hi']
  have elo: "2 powi ?e \<le> ?m" and ehi: "?m < 2 powi (?e + 1)"
    by simp_all
  have ege: "- 1022 \<le> ?e"
  proof (rule ccontr)
    assume "\<not> - 1022 \<le> ?e"
    then have "?e + 1 \<le> - 1022"
      by simp
    then have "(2::real) powi (?e + 1) \<le> 2 powi (- 1022)"
      by (rule power_int_increasing) simp
    with lo ehi show False
      by simp
  qed
  then have emax: "max ?e (- 1022) = ?e"
    by simp
  define ulp :: real where "ulp = 2 powi (?e - 52)"
  define r where "r = real_of_int (rhe (x / ulp)) * ulp"
  have upos: "0 < ulp"
    by (simp add: ulp_def)
  have u2: "ulp = 2 powi ?e / 2 ^ 52"
    unfolding ulp_def by (subst power_int_diff) simp_all
  have "\<bar>r - x\<bar> = \<bar>real_of_int (rhe (x / ulp)) - x / ulp\<bar> * ulp"
  proof -
    have "r - x = (real_of_int (rhe (x / ulp)) - x / ulp) * ulp"
      using upos by (simp add: r_def field_simps)
    then show ?thesis
      using upos by (simp add: abs_mult)
  qed
  also have "\<dots> \<le> (1 / 2) * ulp"
    using upos rhe_error [of "x / ulp"] by (intro mult_right_mono) simp_all
  also have "\<dots> = 2 powi ?e / 2 ^ 53"
    by (simp add: u2)
  also have "\<dots> \<le> ?m / 2 ^ 53"
    using elo by (simp add: divide_right_mono)
  finally have err: "\<bar>r - x\<bar> \<le> ?m / 2 ^ 53" .
  define d where "d = (r - x) / x"
  have dr: "r = x * (1 + d)"
    using x0 by (simp add: d_def field_simps)
  have "\<bar>d\<bar> = \<bar>r - x\<bar> / ?m"
    by (simp add: d_def)
  also have "\<dots> \<le> (?m / 2 ^ 53) / ?m"
    using err mpos by (intro divide_right_mono) simp_all
  also have "\<dots> = 1 / 2 ^ 53"
    using mpos by simp
  finally have dle: "\<bar>d\<bar> \<le> 1 / 2 ^ 53" .
  have "\<bar>r\<bar> \<le> ?m + \<bar>r - x\<bar>"
    by simp
  also have "\<dots> \<le> ?m + ?m / 2 ^ 53"
    using err by simp
  also have "\<dots> \<le> 2 ^ 1023 + 2 ^ 1023 / 2 ^ 53"
    using hi by (intro add_mono divide_right_mono) simp_all
  also have "\<dots> \<le> max_double"
    by (simp add: max_double_def)
  finally have nov: "\<not> max_double < \<bar>r\<bar>"
    by simp
  have "round_double x = Fin r"
    using x0 nov by (simp add: round_double_def Let_def emax ulp_def [symmetric] r_def [symmetric])
  with dr dle show ?thesis
    by auto
qed


lemma round_double_nonpos:
  assumes "x \<le> 0"
  shows "round_double x = NInf \<or> (\<exists>r. r \<le> 0 \<and> round_double x = Fin r)"
proof (cases "x = 0")
  case True
  then show ?thesis by (simp add: round_double_def)
next
  case False
  define ulp :: real where "ulp = 2 powi (max (float_exponent \<bar>x\<bar>) (- 1022) - 52)"
  have upos: "0 < ulp"
    by (simp add: ulp_def)
  with assms have "x / ulp \<le> 0"
    by (simp add: divide_le_0_iff)
  then have "rhe (x / ulp) \<le> 0"
    by (rule rhe_nonpos)
  then have "real_of_int (rhe (x / ulp)) * ulp \<le> 0"
    using upos by (simp add: mult_le_0_iff)
  with False assms show ?thesis
    by (auto simp: round_double_def Let_def ulp_def)
qed


lemma float_exponent_unique:
  assumes "2 powi k \<le> m" and "m < 2 powi (k + 1)" and "- 1099 \<le> k" and "k \<le> 1099"
  shows "float_exponent m = k"
proof -
  have "(2::real) powi (- 1100) \<le> 2 powi k"
    using assms(3) by (intro power_int_increasing) simp_all
  with assms(1) have lo: "2 powi (- 1100) \<le> m"
    by simp
  have "(2::real) powi (k + 1) \<le> 2 powi 1101"
    using assms(4) by (intro power_int_increasing) simp_all
  with assms(2) have hi: "m < 2 ^ 1101"
    by simp
  let ?e = "float_exponent m"
  from float_exponent_spec [OF lo hi]
  have elo: "2 powi ?e \<le> m" and ehi: "m < 2 powi (?e + 1)"
    by simp_all
  have "\<not> ?e < k"
  proof
    assume "?e < k"
    then have "(2::real) powi (?e + 1) \<le> 2 powi k"
      by (intro power_int_increasing) simp_all
    with ehi assms(1) show False by simp
  qed
  moreover have "\<not> k < ?e"
  proof
    assume "k < ?e"
    then have "(2::real) powi (k + 1) \<le> 2 powi ?e"
      by (intro power_int_increasing) simp_all
    with elo assms(2) show False by simp
  qed
  ultimately show ?thesis
    by simp
qed

text \<open>Rounding a number whose binary exponent \<open>k\<close> is known, in the normal range.\<close>

lemma round_double_at:
  assumes "2 powi k \<le> \<bar>x\<bar>" and "\<bar>x\<bar> < 2 powi (k + 1)" and "- 1022 \<le> k" and "k \<le> 1022"
  shows "round_double x = Fin (real_of_int (rhe (x / 2 powi (k - 52))) * 2 powi (k - 52))"
proof -
  have e: "float_exponent \<bar>x\<bar> = k"
    using assms by (intro float_exponent_unique) simp_all
  have "(2::real) powi (- 1022) \<le> 2 powi k"
    using assms(3) by (intro power_int_increasing) simp_all
  with assms(1) have lo: "2 powi (- 1022) \<le> \<bar>x\<bar>"
    by simp
  have "(2::real) powi (k + 1) \<le> 2 powi 1023"
    using assms(4) by (intro power_int_increasing) simp_all
  with assms(2) have hi: "\<bar>x\<bar> \<le> 2 ^ 1023"
    by simp
  from round_double_rel [OF lo hi] obtain d where "round_double x = Fin (x * (1 + d))"
    by blast
  then have fin: "\<exists>y. round_double x = Fin y"
    by blast
  have x0: "x \<noteq> 0"
    using lo by (auto dest: order_trans [of _ 0, rotated])
  from fin x0 assms(3) show ?thesis
    by (auto simp: round_double_def Let_def e split: if_splits)
qed

lemma round_double_0: "round_double 0 = Fin 0"
  by (simp add: round_double_def)

text \<open>
  A positive number in the normal range is rounded to a number within the factor
  \<open>1 - 2\<^sup>-\<^sup>5\<^sup>3\<close> of it, below and above.
\<close>

lemma round_double_pos:
  assumes "2 powi (- 1022) \<le> x" and "x \<le> 2 ^ 1023"
  shows "\<exists>y. round_double x = Fin y \<and> (1 - 1 / 2 ^ 53) * x \<le> y \<and> y \<le> x / (1 - 1 / 2 ^ 53)"
proof -
  have xpos: "0 < x"
    using assms(1) by (rule less_le_trans [rotated]) simp
  then have ax: "\<bar>x\<bar> = x"
    by simp
  from round_double_rel [of x] assms ax
  obtain d where d: "\<bar>d\<bar> \<le> 1 / 2 ^ 53" and y: "round_double x = Fin (x * (1 + d))"
    by auto
  define u :: real where "u = 1 / 2 ^ 53"
  have u: "0 < u" "u < 1"
    by (simp_all add: u_def)
  from d have dl: "- u \<le> d" and du: "d \<le> u"
    by (simp_all add: u_def abs_le_iff)
  have "(1 - u) * x \<le> x * (1 + d)"
  proof -
    have "1 - u \<le> 1 + d"
      using dl by simp
    then have "(1 - u) * x \<le> (1 + d) * x"
      using xpos by (intro mult_right_mono) simp_all
    then show ?thesis
      by (simp add: mult.commute)
  qed
  moreover have "x * (1 + d) \<le> x / (1 - u)"
  proof -
    have "(1 + d) * (1 - u) \<le> (1 + u) * (1 - u)"
      using du u by (intro mult_right_mono) simp_all
    also have "\<dots> \<le> 1"
      by (simp add: algebra_simps)
    finally have "1 + d \<le> 1 / (1 - u)"
      using u by (simp add: pos_le_divide_eq)
    then have "x * (1 + d) \<le> x * (1 / (1 - u))"
      using xpos by (intro mult_left_mono) simp_all
    then show ?thesis
      by simp
  qed
  ultimately show ?thesis
    using y by (auto simp: u_def)
qed

subsection \<open>Accumulated rounding error\<close>

lemma rho_pos: "0 < rho"
  by (simp add: rho_def)

lemma rho_le1: "rho \<le> 1"
  by (simp add: rho_def)

lemma rho_nonneg: "0 \<le> rho"
  by (simp add: rho_def)

lemma rho_pow_pos: "0 < rho ^ k"
  by (intro zero_less_power rho_pos)

lemma rho_pow_le1: "rho ^ k \<le> 1"
  by (intro power_le_one rho_le1 rho_nonneg)

lemma rho_pow_bernoulli: "1 - real k / 2 ^ 53 \<le> rho ^ k"
proof -
  have "1 + real k * (- (1 / 2 ^ 53)) \<le> (1 + (- (1 / 2 ^ 53)) :: real) ^ k"
    by (intro Bernoulli_inequality) simp
  then show ?thesis
    by (simp add: rho_def)
qed

lemma rho_pow_half:
  assumes "k \<le> 2 ^ 52"
  shows "1 / 2 \<le> rho ^ k"
proof -
  from assms have "real k \<le> real (2 ^ 52)"
    by (rule of_nat_mono)
  then have "real k / 2 ^ 53 \<le> 2 ^ 52 / 2 ^ 53"
    by (intro divide_right_mono) simp_all
  then have "1 / 2 \<le> 1 - real k / 2 ^ 53"
    by simp
  with rho_pow_bernoulli [of k] show ?thesis
    by simp
qed

lemma close_to_refl: "close_to 0 x x"
  by (simp add: close_to_def)

lemma close_to_trans:
  assumes "close_to a x y" and "close_to b y z"
  shows "close_to (a + b) x z"
proof -
  from assms have xy: "rho ^ a * x \<le> y" "y \<le> x / rho ^ a" and yz: "rho ^ b * y \<le> z" "z \<le> y / rho ^ b"
    by (simp_all add: close_to_def)
  have "rho ^ b * (rho ^ a * x) \<le> rho ^ b * y"
    using xy(1) rho_pow_pos [of b] by (intro mult_left_mono) simp_all
  with yz(1) have l: "rho ^ (a + b) * x \<le> z"
    by (simp add: power_add mult_ac)
  have "y / rho ^ b \<le> (x / rho ^ a) / rho ^ b"
    using xy(2) rho_pow_pos [of b] by (intro divide_right_mono) simp_all
  with yz(2) have "z \<le> x / rho ^ (a + b)"
    by (simp add: power_add mult_ac)
  with l show ?thesis
    by (simp add: close_to_def)
qed

lemma close_to_mono:
  assumes "close_to a x y" and "a \<le> b" and "0 \<le> x"
  shows "close_to b x y"
proof -
  from assms(1) have xy: "rho ^ a * x \<le> y" "y \<le> x / rho ^ a"
    by (simp_all add: close_to_def)
  have le: "rho ^ b \<le> rho ^ a"
    using assms(2) by (intro power_decreasing rho_nonneg rho_le1)
  then have "rho ^ b * x \<le> rho ^ a * x"
    using assms(3) by (intro mult_right_mono)
  with xy(1) have l: "rho ^ b * x \<le> y"
    by simp
  have "x / rho ^ a \<le> x / rho ^ b"
    using le assms(3) rho_pow_pos [of b] by (intro divide_left_mono) simp_all
  with xy(2) l show ?thesis
    by (simp add: close_to_def)
qed

lemma close_to_pos: "close_to k x y \<Longrightarrow> 0 < x \<Longrightarrow> 0 < y"
proof -
  assume c: "close_to k x y" and x: "0 < x"
  have "0 < rho ^ k * x"
    using x rho_pow_pos [of k] by (intro mult_pos_pos)
  moreover from c have "rho ^ k * x \<le> y"
    by (simp add: close_to_def)
  ultimately show ?thesis
    by simp
qed

lemma close_to_inverse:
  assumes "close_to k x y" and "0 < x"
  shows "close_to k (1 / x) (1 / y)"
proof -
  from assms(1) have xy: "rho ^ k * x \<le> y" "y \<le> x / rho ^ k"
    by (simp_all add: close_to_def)
  have ypos: "0 < y"
    using assms by (rule close_to_pos)
  have rp: "0 < rho ^ k"
    by (rule rho_pow_pos)
  have "1 / y \<le> 1 / (rho ^ k * x)"
    using xy(1) rp assms(2) ypos by (intro divide_left_mono mult_pos_pos) simp_all
  then have u: "1 / y \<le> (1 / x) / rho ^ k"
    by (simp add: mult.commute)
  have "1 / (x / rho ^ k) \<le> 1 / y"
    using xy(2) ypos rp assms(2) by (intro divide_left_mono) simp_all
  then have "rho ^ k * (1 / x) \<le> 1 / y"
    by simp
  with u show ?thesis
    by (simp add: close_to_def)
qed

lemma close_to_mult:
  assumes "close_to a x y" and "close_to b x' y'" and "0 < x" and "0 < x'"
  shows "close_to (a + b) (x * x') (y * y')"
proof -
  from assms(1) have xy: "rho ^ a * x \<le> y" "y \<le> x / rho ^ a"
    by (simp_all add: close_to_def)
  from assms(2) have xy': "rho ^ b * x' \<le> y'" "y' \<le> x' / rho ^ b"
    by (simp_all add: close_to_def)
  have yp: "0 < y" "0 < y'"
    using assms by (auto intro: close_to_pos)
  have ra: "0 < rho ^ a" and rb: "0 < rho ^ b"
    by (rule rho_pow_pos)+
  have "(rho ^ a * x) * (rho ^ b * x') \<le> y * y'"
    using xy(1) xy'(1) ra rb assms(3,4) yp by (intro mult_mono) simp_all
  then have l: "rho ^ (a + b) * (x * x') \<le> y * y'"
    by (simp add: power_add mult_ac)
  have "y * y' \<le> (x / rho ^ a) * (x' / rho ^ b)"
    using xy(2) xy'(2) yp ra rb assms(3,4) by (intro mult_mono) simp_all
  then have "y * y' \<le> (x * x') / rho ^ (a + b)"
    by (simp add: power_add mult_ac)
  with l show ?thesis
    by (simp add: close_to_def)
qed

lemma close_to_divide:
  assumes "close_to a x y" and "close_to b x' y'" and "0 < x" and "0 < x'"
  shows "close_to (a + b) (x / x') (y / y')"
proof -
  have "close_to (a + b) (x * (1 / x')) (y * (1 / y'))"
    using assms by (intro close_to_mult close_to_inverse) simp_all
  then show ?thesis
    by simp
qed

lemma close_to_add:
  assumes "close_to k x y" and "close_to k x' y'"
  shows "close_to k (x + x') (y + y')"
  using assms by (simp add: close_to_def algebra_simps add_divide_distrib add_mono)

lemma close_to_sum_list:
  assumes "\<forall>s \<in> set ss. close_to k (f s) (g s)"
  shows "close_to k (sum_list (map f ss)) (sum_list (map g ss))"
  using assms
proof (induction ss)
  case Nil
  then show ?case by (simp add: close_to_def)
next
  case (Cons s ss)
  then show ?case
    by (simp add: close_to_add)
qed

text \<open>While fewer than \<open>2\<^sup>5\<^sup>2\<close> roundings are involved, the factor stays above one half.\<close>

lemma close_to_half:
  assumes "close_to k x y" and "k \<le> 2 ^ 52" and "0 \<le> x"
  shows "x / 2 \<le> y" and "y \<le> 2 * x"
proof -
  from assms(1) have xy: "rho ^ k * x \<le> y" "y \<le> x / rho ^ k"
    by (simp_all add: close_to_def)
  have h: "1 / 2 \<le> rho ^ k"
    using assms(2) by (rule rho_pow_half)
  then have "(1 / 2) * x \<le> rho ^ k * x"
    using assms(3) by (intro mult_right_mono)
  with xy(1) show "x / 2 \<le> y"
    by simp
  have "x / rho ^ k \<le> x / (1 / 2)"
    using h assms(3) by (intro divide_left_mono) simp_all
  with xy(2) show "y \<le> 2 * x"
    by simp
qed

lemma close_to_abs:
  assumes "close_to k x y" and "k \<le> 2 ^ 52" and "0 \<le> x"
  shows "\<bar>y - x\<bar> \<le> x * (real k / 2 ^ 52)"
proof -
  define t where "t = real k / 2 ^ 53"
  from assms(1) have xy: "rho ^ k * x \<le> y" "y \<le> x / rho ^ k"
    by (simp_all add: close_to_def)
  from assms(2) have "real k \<le> real (2 ^ 52)"
    by (rule of_nat_mono)
  then have "real k / 2 ^ 53 \<le> 2 ^ 52 / 2 ^ 53"
    by (intro divide_right_mono) simp_all
  then have t: "0 \<le> t" "t \<le> 1 / 2"
    by (simp_all add: t_def)
  have b: "1 - t \<le> rho ^ k"
    using rho_pow_bernoulli [of k] by (simp add: t_def)
  have "(1 - t) * x \<le> rho ^ k * x"
    using b assms(3) by (intro mult_right_mono)
  with xy(1) have l: "x - t * x \<le> y"
    by (simp add: algebra_simps)
  have "1 \<le> (1 + 2 * t) * (1 - t)"
  proof -
    have "(1 + 2 * t) * (1 - t) = 1 + t * (1 - 2 * t)"
      by (simp add: algebra_simps)
    moreover have "0 \<le> t * (1 - 2 * t)"
      using t by (intro mult_nonneg_nonneg) simp_all
    ultimately show ?thesis by simp
  qed
  also have "\<dots> \<le> (1 + 2 * t) * rho ^ k"
    using b t by (intro mult_left_mono) simp_all
  finally have "1 / rho ^ k \<le> 1 + 2 * t"
    using rho_pow_pos [of k] by (simp add: pos_divide_le_eq)
  then have "x * (1 / rho ^ k) \<le> x * (1 + 2 * t)"
    using assms(3) by (intro mult_left_mono)
  with xy(2) have u: "y \<le> x + 2 * t * x"
    by (simp add: algebra_simps)
  have "t * x \<le> 2 * t * x"
    using t assms(3) by (simp add: mult_nonneg_nonneg)
  with l u have "\<bar>y - x\<bar> \<le> 2 * t * x"
    by (simp add: abs_le_iff)
  also have "2 * t * x = x * (real k / 2 ^ 52)"
    by (simp add: t_def)
  finally show ?thesis .
qed

lemma round_double_close:
  assumes "2 powi (- 1022) \<le> x" and "x \<le> 2 ^ 1023"
  shows "\<exists>y. round_double x = Fin y \<and> close_to 1 x y"
  using round_double_pos [OF assms] by (simp add: close_to_def rho_def)

subsection \<open>Properties of the allocation weights\<close>

lemma eps_double:
  "round_double (1 / 1000000) = Fin (4722366482869645 / 4722366482869645213696)"
  by (simp add: round_double_at [where k = "- 20"] rhe_def power_int_minus)

text \<open>One unnormalised weight \<open>1 / (s + 1e-6)\<close>, for \<open>0 \<le> s \<le> 2\<^sup>1\<^sup>0\<^sup>0\<close>.\<close>

lemma inverse_std_close:
  assumes "0 \<le> s" and "s \<le> 2 ^ 100"
  shows "\<exists>r. ddiv (Fin 1) (dadd (Fin s) (round_double (1 / 1000000))) = Fin r
           \<and> close_to 2 (1 / (s + 4722366482869645 / 4722366482869645213696)) r
           \<and> 2 powi (- 102) \<le> r \<and> r \<le> 2 ^ 21"
proof -
  define c :: real where "c = 4722366482869645 / 4722366482869645213696"
  have c: "1 / 2 ^ 20 \<le> c" "c \<le> 1"
    by (simp_all add: c_def)
  define x where "x = s + c"
  have x: "1 / 2 ^ 20 \<le> x" "x \<le> 2 ^ 101"
    using assms c by (simp_all add: x_def)
  have xpos: "0 < x"
    using x(1) by (rule less_le_trans [rotated]) simp
  have "(2::real) powi (- 1022) \<le> 1 / 2 ^ 20"
    by (simp add: power_int_minus field_simps)
  with x(1) have xlo: "2 powi (- 1022) \<le> x"
    by linarith
  have "(2::real) ^ 101 \<le> 2 ^ 1023"
    by (intro power_increasing) simp_all
  with x(2) have xhi: "x \<le> 2 ^ 1023"
    by linarith
  from round_double_close [OF xlo xhi] obtain t where
    t: "round_double x = Fin t" and xt: "close_to 1 x t"
    by blast
  have tpos: "0 < t"
    using xt xpos by (rule close_to_pos)
  have it: "close_to 1 (1 / x) (1 / t)"
    using xt xpos by (rule close_to_inverse)
  have ixpos: "0 < 1 / x"
    using xpos by simp
  have ix: "1 / 2 ^ 101 \<le> 1 / x" "1 / x \<le> 2 ^ 20"
  proof -
    show "1 / 2 ^ 101 \<le> 1 / x"
      using x(2) xpos by (intro divide_left_mono) simp_all
    have "1 / x \<le> 1 / (1 / 2 ^ 20)"
      using x(1) xpos by (intro divide_left_mono) simp_all
    then show "1 / x \<le> 2 ^ 20"
      by simp
  qed
  have h: "(1 / x) / 2 \<le> 1 / t" "1 / t \<le> 2 * (1 / x)"
    using close_to_half [OF it] ixpos by simp_all
  have "(2::real) powi (- 1022) \<le> 1 / 2 ^ 101 / 2"
    by (simp add: power_int_minus field_simps)
  also have "\<dots> \<le> (1 / x) / 2"
    using ix(1) by (intro divide_right_mono) simp_all
  also note h(1)
  finally have tlo: "2 powi (- 1022) \<le> 1 / t" .
  note h(2)
  also have "2 * (1 / x) \<le> 2 * 2 ^ 20"
    using ix(2) by (intro mult_left_mono) simp_all
  also have "\<dots> \<le> (2::real) ^ 1023"
    by simp
  finally have thi: "1 / t \<le> 2 ^ 1023" .
  from round_double_close [OF tlo thi] obtain r where
    r: "round_double (1 / t) = Fin r" and tr: "close_to 1 (1 / t) r"
    by blast
  have xr: "close_to 2 (1 / x) r"
    using close_to_trans [OF it tr] by (simp add: numeral_2_eq_2)
  have h2: "(1 / x) / 2 \<le> r" "r \<le> 2 * (1 / x)"
    using close_to_half [OF xr] ixpos by simp_all
  have "(2::real) powi (- 102) \<le> 1 / 2 ^ 101 / 2"
    by (simp add: power_int_minus field_simps)
  also have "\<dots> \<le> (1 / x) / 2"
    using ix(1) by (intro divide_right_mono) simp_all
  also note h2(1)
  finally have rlo: "2 powi (- 102) \<le> r" .
  note h2(2)
  also have "2 * (1 / x) \<le> 2 * 2 ^ 20"
    using ix(2) by (intro mult_left_mono) simp_all
  also have "\<dots> = (2::real) ^ 21"
    by simp
  finally have rhi: "r \<le> 2 ^ 21" .
  have "ddiv (Fin 1) (dadd (Fin s) (round_double (1 / 1000000))) = Fin r"
    using tpos by (simp add: eps_double t [unfolded x_def c_def] r)
  with xr rlo rhi show ?thesis
    unfolding x_def c_def by blast
qed

lemma dsum_snoc: "dsum (xs @ [x]) = dadd (dsum xs) x"
  by (simp add: dsum_def)

text \<open>The running sum of at most \<open>2\<^sup>2\<^sup>0\<close> numbers between \<open>2\<^sup>-\<^sup>1\<^sup>5\<^sup>0\<close> and \<open>2\<^sup>2\<^sup>1\<close>.\<close>

lemma dsum_close:
  assumes "\<forall>r \<in> set rs. 2 powi (- 150) \<le> r \<and> r \<le> 2 ^ 21" and "length rs \<le> 2 ^ 20"
  shows "\<exists>S. dsum (map Fin rs) = Fin S \<and> close_to (length rs) (sum_list rs) S"
  using assms
proof (induction rs rule: rev_induct)
  case Nil
  show ?case
    by (simp add: dsum_def close_to_def)
next
  case (snoc x rs)
  from snoc.prems have rs: "\<forall>r \<in> set rs. 2 powi (- 150) \<le> r \<and> r \<le> 2 ^ 21"
    and len: "length rs \<le> 2 ^ 20" and x: "2 powi (- 150) \<le> x" "x \<le> 2 ^ 21"
    by simp_all
  from snoc.IH [OF rs len] obtain S where
    S: "dsum (map Fin rs) = Fin S" and cS: "close_to (length rs) (sum_list rs) S"
    by blast
  have xpos: "0 < x"
    using x(1) by (rule less_le_trans [rotated]) simp
  have nonneg: "\<forall>r \<in> set rs. 0 \<le> r"
  proof
    fix r assume "r \<in> set rs"
    with rs have "2 powi (- 150) \<le> r" by simp
    moreover have "(0::real) \<le> 2 powi (- 150)" by simp
    ultimately show "0 \<le> r" by linarith
  qed
  then have sum0: "0 \<le> sum_list rs"
    by (intro sum_list_nonneg) simp
  have len52: "length rs \<le> 2 ^ 52"
    using len by (rule order_trans) simp
  have S0: "0 \<le> S" and S2: "S \<le> 2 * sum_list rs"
    using close_to_half [OF cS len52 sum0] sum0 by simp_all
  have "sum_list rs \<le> sum_list (map (\<lambda>_. 2 ^ 21) rs)"
    using rs by (intro sum_list_mono [of rs "\<lambda>r. r", simplified]) simp
  also have "\<dots> = real (length rs) * 2 ^ 21"
    by (simp add: sum_list_triv)
  also have "\<dots> \<le> real (2 ^ 20 :: nat) * 2 ^ 21"
    using len by (intro mult_right_mono of_nat_mono) simp_all
  finally have sumle: "sum_list rs \<le> 2 ^ 41"
    by simp
  have "(2::real) powi (- 1022) \<le> 2 powi (- 150)"
    by (intro power_int_increasing) simp_all
  also note x(1)
  also have "x \<le> S + x"
    using S0 by simp
  finally have lo: "2 powi (- 1022) \<le> S + x" .
  have "S + x \<le> 2 * 2 ^ 41 + 2 ^ 21"
    using S2 sumle x(2) by (intro add_mono) simp_all
  also have "\<dots> \<le> (2::real) ^ 1023"
    by simp
  finally have hi: "S + x \<le> 2 ^ 1023" .
  from round_double_close [OF lo hi] obtain T where
    T: "round_double (S + x) = Fin T" and cT: "close_to 1 (S + x) T"
    by blast
  have "close_to (length rs) x x"
    using xpos by (intro close_to_mono [OF close_to_refl]) simp_all
  with cS have "close_to (length rs) (sum_list rs + x) (S + x)"
    by (rule close_to_add)
  from close_to_trans [OF this cT]
  have "close_to (length (rs @ [x])) (sum_list (rs @ [x])) T"
    by simp
  moreover have "dsum (map Fin (rs @ [x])) = Fin T"
    by (simp add: dsum_snoc S T)
  ultimately show ?case
    by blast
qed

lemma sum_list_divide_const:
  fixes f :: "'a \<Rightarrow> real"
  shows "sum_list (map (\<lambda>s. f s / c) ss) = sum_list (map f ss) / c"
  by (induction ss) (simp_all add: add_divide_distrib)

lemma sum_list_pos_real:
  fixes xs :: "real list"
  assumes "xs \<noteq> []" and "\<forall>x \<in> set xs. 0 < x"
  shows "0 < sum_list xs"
  using assms
proof (induction xs)
  case Nil
  then show ?case by simp
next
  case (Cons x xs)
  show ?case
  proof (cases "xs = []")
    case True
    with Cons.prems show ?thesis by simp
  next
    case False
    with Cons have "0 < sum_list xs" by simp
    moreover from Cons.prems have "0 < x" by simp
    ultimately show ?thesis by simp
  qed
qed

text \<open>
  C6 (as amended). For between 1 and \<open>2\<^sup>2\<^sup>0\<close> assets with predictive standard deviations
  between 0 and \<open>2\<^sup>1\<^sup>0\<^sup>0\<close>, the allocation weights are finite, one per asset and strictly
  positive. Each weight is the inverse of (std + \<open>\<epsilon>\<close>) divided by the sum of these
  inverses, up to a relative error of \<open>(n + 5) / 2\<^sup>5\<^sup>2\<close>, where \<open>\<epsilon>\<close> is the double nearest to
  \<open>1e-6\<close>; the weights sum to 1 up to the same error, not exactly.
\<close>

theorem allocation_weights_normalized:
  assumes ne: "ss \<noteq> []" and len: "length ss \<le> 2 ^ 20"
    and rng: "\<forall>s \<in> set ss. 0 \<le> s \<and> s \<le> 2 ^ 100"
  shows "\<exists>ws. allocation_weights (map Fin ss) = map Fin ws
           \<and> length ws = length ss
           \<and> (\<forall>i < length ss.
                 0 < ws ! i
               \<and> \<bar>ws ! i - (1 / (ss ! i + 4722366482869645 / 4722366482869645213696))
                              / (\<Sum>s\<leftarrow>ss. 1 / (s + 4722366482869645 / 4722366482869645213696))\<bar>
                   \<le> (1 / (ss ! i + 4722366482869645 / 4722366482869645213696))
                       / (\<Sum>s\<leftarrow>ss. 1 / (s + 4722366482869645 / 4722366482869645213696))
                       * (real (length ss + 5) / 2 ^ 52))
           \<and> \<bar>sum_list ws - 1\<bar> \<le> real (length ss + 5) / 2 ^ 52"
proof -
  define c :: real where "c = 4722366482869645 / 4722366482869645213696"
  define e where "e = (\<lambda>s. 1 / (s + c))"
  define E where "E = (\<Sum>s\<leftarrow>ss. e s)"
  define n where "n = length ss"
  define f where "f = (\<lambda>s. case ddiv (Fin 1) (dadd (Fin s) (round_double (1 / 1000000))) of
                             Fin r \<Rightarrow> r | _ \<Rightarrow> 0)"
  have cpos: "0 < c"
    by (simp add: c_def)
  have epos: "\<forall>s \<in> set ss. 0 < e s"
    using rng cpos by (auto simp: e_def intro!: divide_pos_pos add_nonneg_pos)
  have f: "\<forall>s \<in> set ss. ddiv (Fin 1) (dadd (Fin s) (round_double (1 / 1000000))) = Fin (f s)
                          \<and> close_to 2 (e s) (f s) \<and> 2 powi (- 102) \<le> f s \<and> f s \<le> 2 ^ 21"
  proof
    fix s assume "s \<in> set ss"
    with rng have "0 \<le> s" "s \<le> 2 ^ 100" by simp_all
    from inverse_std_close [OF this] obtain r where
      "ddiv (Fin 1) (dadd (Fin s) (round_double (1 / 1000000))) = Fin r"
      "close_to 2 (e s) r" "2 powi (- 102) \<le> r" "r \<le> 2 ^ 21"
      unfolding e_def c_def by blast
    then show "ddiv (Fin 1) (dadd (Fin s) (round_double (1 / 1000000))) = Fin (f s)
                 \<and> close_to 2 (e s) (f s) \<and> 2 powi (- 102) \<le> f s \<and> f s \<le> 2 ^ 21"
      by (simp add: f_def)
  qed
  define rs where "rs = map f ss"
  have raw: "map (\<lambda>s. ddiv (Fin 1) (dadd s (round_double (1 / 1000000)))) (map Fin ss) = map Fin rs"
    unfolding rs_def map_map using f by (intro map_cong refl) simp
  have fpos: "\<forall>s \<in> set ss. 0 < f s"
  proof
    fix s assume "s \<in> set ss"
    with f have "2 powi (- 102) \<le> f s" by simp
    moreover have "(0::real) < 2 powi (- 102)" by simp
    ultimately show "0 < f s" by linarith
  qed
  have rs_rng: "\<forall>r \<in> set rs. 2 powi (- 150) \<le> r \<and> r \<le> 2 ^ 21"
  proof
    fix r assume "r \<in> set rs"
    then obtain s where s: "s \<in> set ss" and r: "r = f s"
      by (auto simp: rs_def)
    have "(2::real) powi (- 150) \<le> 2 powi (- 102)"
      by (intro power_int_increasing) simp_all
    with f s r show "2 powi (- 150) \<le> r \<and> r \<le> 2 ^ 21"
      by fastforce
  qed
  have rs_len: "length rs \<le> 2 ^ 20"
    using len by (simp add: rs_def)
  from dsum_close [OF rs_rng rs_len] obtain S where
    S: "dsum (map Fin rs) = Fin S" and cS: "close_to n (sum_list rs) S"
    by (auto simp: rs_def n_def)
  have cE: "close_to 2 E (sum_list rs)"
    unfolding E_def rs_def using f by (intro close_to_sum_list) simp
  have cES: "close_to (n + 2) E S"
    using close_to_trans [OF cE cS] by (simp add: add.commute)
  have Epos: "0 < E"
    unfolding E_def using ne epos by (intro sum_list_pos_real) auto
  have Spos: "0 < S"
    using cES Epos by (rule close_to_pos)
  have sumpos: "0 < sum_list rs"
    using cE Epos by (rule close_to_pos)
  have n52: "n \<le> 2 ^ 52"
  proof -
    have "n \<le> 2 ^ 20" using len by (simp add: n_def)
    also have "\<dots> \<le> (2::nat) ^ 52" by simp
    finally show ?thesis .
  qed
  have Sh: "sum_list rs / 2 \<le> S" "S \<le> 2 * sum_list rs"
    using close_to_half [OF cS n52] sumpos by simp_all
  have "sum_list rs \<le> sum_list (map (\<lambda>_. 2 ^ 21) rs)"
    using rs_rng by (intro sum_list_mono [of rs "\<lambda>r. r", simplified]) simp
  also have "\<dots> = real (length rs) * 2 ^ 21"
    by (simp add: sum_list_triv)
  also have "\<dots> \<le> real (2 ^ 20 :: nat) * 2 ^ 21"
    using rs_len by (intro mult_right_mono of_nat_mono) simp_all
  finally have sumle: "sum_list rs \<le> 2 ^ 41"
    by simp
  have Sle: "S \<le> 2 ^ 42"
  proof -
    have "2 * sum_list rs \<le> 2 * 2 ^ 41"
      using sumle by simp
    with Sh(2) show ?thesis by simp
  qed
  define g where "g = (\<lambda>r. case ddiv (Fin r) (Fin S) of Fin w \<Rightarrow> w | _ \<Rightarrow> 0)"
  have g: "\<forall>s \<in> set ss. ddiv (Fin (f s)) (Fin S) = Fin (g (f s))
                          \<and> close_to (n + 5) (e s / E) (g (f s))"
  proof
    fix s assume s: "s \<in> set ss"
    with f have fs: "close_to 2 (e s) (f s)" "2 powi (- 102) \<le> f s"
      by simp_all
    from s fpos have fp: "0 < f s" by simp
    from s epos have ep: "0 < e s" by simp
    have mem: "f s \<le> sum_list rs"
      unfolding rs_def using s fpos
      by (intro member_le_sum_list) (auto intro: less_imp_le)
    have "f s / S \<le> f s / (sum_list rs / 2)"
      using Sh(1) fp sumpos by (intro divide_left_mono mult_pos_pos) simp_all
    also have "\<dots> \<le> sum_list rs / (sum_list rs / 2)"
      using mem sumpos by (intro divide_right_mono) simp_all
    also have "\<dots> = 2"
      using sumpos by simp
    also have "\<dots> \<le> (2::real) ^ 1023"
      by simp
    finally have qhi: "f s / S \<le> 2 ^ 1023" .
    have "(2::real) powi (- 1022) \<le> 2 powi (- 102) / 2 ^ 42"
      by (simp add: power_int_minus field_simps)
    also have "\<dots> \<le> f s / 2 ^ 42"
      using fs(2) by (intro divide_right_mono) simp_all
    also have "\<dots> \<le> f s / S"
      using Sle Spos fp by (intro divide_left_mono mult_pos_pos) simp_all
    finally have qlo: "2 powi (- 1022) \<le> f s / S" .
    from round_double_close [OF qlo qhi] obtain w where
      w: "round_double (f s / S) = Fin w" and cw: "close_to 1 (f s / S) w"
      by blast
    have "close_to (2 + (n + 2)) (e s / E) (f s / S)"
      using fs(1) cES ep Epos by (rule close_to_divide)
    from close_to_trans [OF this cw] have "close_to (2 + (n + 2) + 1) (e s / E) w" .
    moreover have "2 + (n + 2) + 1 = n + 5"
      by arith
    ultimately have "close_to (n + 5) (e s / E) w"
      by (simp only:)
    moreover have "ddiv (Fin (f s)) (Fin S) = Fin w"
      using Spos w by simp
    ultimately show "ddiv (Fin (f s)) (Fin S) = Fin (g (f s))
                          \<and> close_to (n + 5) (e s / E) (g (f s))"
      by (simp add: g_def)
  qed
  define ws where "ws = map (\<lambda>s. g (f s)) ss"
  have code: "allocation_weights (map Fin ss) = map Fin ws"
  proof -
    have "map (\<lambda>w. ddiv w (Fin S)) (map Fin rs) = map Fin ws"
      unfolding rs_def ws_def map_map using g by (intro map_cong refl) simp
    then show ?thesis
      by (simp only: allocation_weights_def Let_def raw S)
  qed
  have k52: "n + 5 \<le> 2 ^ 52"
  proof -
    have "n + 5 \<le> 2 ^ 20 + 5" using len by (simp add: n_def)
    also have "\<dots> \<le> (2::nat) ^ 52" by simp
    finally show ?thesis .
  qed
  have each: "\<forall>i < length ss. 0 < ws ! i
                \<and> \<bar>ws ! i - e (ss ! i) / E\<bar> \<le> e (ss ! i) / E * (real (n + 5) / 2 ^ 52)"
  proof (intro allI impI)
    fix i assume i: "i < length ss"
    then have s: "ss ! i \<in> set ss" by simp
    have wi: "ws ! i = g (f (ss ! i))"
      using i by (simp add: ws_def)
    from s g have cl: "close_to (n + 5) (e (ss ! i) / E) (ws ! i)"
      by (simp add: wi)
    from s epos Epos have xp: "0 < e (ss ! i) / E"
      by simp
    from close_to_pos [OF cl xp] close_to_abs [OF cl k52] xp
    show "0 < ws ! i \<and> \<bar>ws ! i - e (ss ! i) / E\<bar> \<le> e (ss ! i) / E * (real (n + 5) / 2 ^ 52)"
      by simp
  qed
  have "close_to (n + 5) (sum_list (map (\<lambda>s. e s / E) ss)) (sum_list (map (\<lambda>s. g (f s)) ss))"
    using g by (intro close_to_sum_list) simp
  moreover have "sum_list (map (\<lambda>s. e s / E) ss) = 1"
    using Epos by (simp add: sum_list_divide_const E_def [symmetric])
  ultimately have "close_to (n + 5) 1 (sum_list ws)"
    by (simp add: ws_def)
  from close_to_abs [OF this k52] have total: "\<bar>sum_list ws - 1\<bar> \<le> real (n + 5) / 2 ^ 52"
    by simp
  have "length ws = length ss"
    by (simp add: ws_def)
  with code each total show ?thesis
    unfolding e_def E_def c_def n_def by blast
qed

theorem allocation_weights_normalized_witness:
  "\<exists>ws. allocation_weights [Fin 0, Fin 1] = map Fin ws
        \<and> length ws = 2
        \<and> 0 < ws ! 0 \<and> 0 < ws ! 1
        \<and> \<bar>sum_list ws - 1\<bar> \<le> 7 / 2 ^ 52"
proof -
  have ne: "[0, 1 :: real] \<noteq> []"
    by simp
  have len: "length [0, 1 :: real] \<le> 2 ^ 20"
    by simp
  have rng: "\<forall>s \<in> set [0, 1 :: real]. 0 \<le> s \<and> s \<le> 2 ^ 100"
    by simp
  from allocation_weights_normalized [OF ne len rng] obtain ws where
    ws: "allocation_weights (map Fin [0, 1]) = map Fin ws" "length ws = length [0, 1 :: real]"
      "\<forall>i < length [0, 1 :: real]. 0 < ws ! i"
      "\<bar>sum_list ws - 1\<bar> \<le> real (length [0, 1 :: real] + 5) / 2 ^ 52"
    by blast
  from ws(3) have "0 < ws ! 0" and "0 < ws ! 1"
    by simp_all
  with ws(1,2,4) show ?thesis
    by (intro exI [of _ ws]) simp
qed

text \<open>
  The claim as written fails: the weights do not sum to 1. For the standard deviations
  \<open>0.1, 0.2, 0.3\<close> (the nearest doubles) the weights are about
  \<open>0.5454531, 0.2727279, 0.1818189\<close>, and their sum in double precision is
  \<open>1 + 2\<^sup>-\<^sup>5\<^sup>2\<close>.
\<close>

theorem allocation_weights_sum_counterexample:
  "allocation_weights [Fin (3602879701896397 / 36028797018963968),
                       Fin (3602879701896397 / 18014398509481984),
                       Fin (5404319552844595 / 18014398509481984)]
   = [Fin (2456502560328229 / 4503599627370496),
      Fin (1228257421389809 / 4503599627370496),
      Fin (6550717165219669 / 36028797018963968)]
   \<and> dsum (allocation_weights [Fin (3602879701896397 / 36028797018963968),
                               Fin (3602879701896397 / 18014398509481984),
                               Fin (5404319552844595 / 18014398509481984)])
     = Fin (4503599627370497 / 4503599627370496)
   \<and> dsum (allocation_weights [Fin (3602879701896397 / 36028797018963968),
                               Fin (3602879701896397 / 18014398509481984),
                               Fin (5404319552844595 / 18014398509481984)])
     \<noteq> Fin 1"
proof -
  have r1: "round_double (1 / 1000000) = Fin (4722366482869645 / 4722366482869645213696)"
    by (simp add: round_double_at [where k = "- 20"] rhe_def power_int_minus)
  have r2: "round_double (472241370653447417229 / 4722366482869645213696) = Fin (450364466336677 / 4503599627370496)"
    by (simp add: round_double_at [where k = "- 4"] rhe_def power_int_minus)
  have r3: "round_double (4503599627370496 / 450364466336677) = Fin (2814721619890361 / 281474976710656)"
    by (simp add: round_double_at [where k = "3"] rhe_def power_int_minus)
  have r4: "round_double (944478018940411964813 / 4722366482869645213696) = Fin (7205795432589813 / 36028797018963968)"
    by (simp add: round_double_at [where k = "- 3"] rhe_def power_int_minus)
  have r5: "round_double (36028797018963968 / 7205795432589813) = Fin (5629471386856185 / 1125899906842624)"
    by (simp add: round_double_at [where k = "2"] rhe_def power_int_minus)
  have r6: "round_double (1416714667227376381325 / 4722366482869645213696) = Fin (168885548976347 / 562949953421312)"
    by (simp add: round_double_at [where k = "- 2"] rhe_def power_int_minus)
  have r7: "round_double (562949953421312 / 168885548976347) = Fin (7505974359036297 / 2251799813685248)"
    by (simp add: round_double_at [where k = "1"] rhe_def power_int_minus)
  have r8: "round_double (2814721619890361 / 281474976710656) = Fin (2814721619890361 / 281474976710656)"
    by (simp add: round_double_at [where k = "3"] rhe_def power_int_minus)
  have r9: "round_double (16888357866417629 / 1125899906842624) = Fin (4222089466604407 / 281474976710656)"
    by (simp add: round_double_at [where k = "3"] rhe_def power_int_minus)
  have r10: "round_double (41282690091871553 / 2251799813685248) = Fin (645042032685493 / 35184372088832)"
    by (simp add: round_double_at [where k = "4"] rhe_def power_int_minus)
  have r11: "round_double (2814721619890361 / 5160336261483944) = Fin (2456502560328229 / 4503599627370496)"
    by (simp add: round_double_at [where k = "- 1"] rhe_def power_int_minus)
  have r12: "round_double (5629471386856185 / 20641345045935776) = Fin (1228257421389809 / 4503599627370496)"
    by (simp add: round_double_at [where k = "- 2"] rhe_def power_int_minus)
  have r13: "round_double (7505974359036297 / 41282690091871552) = Fin (6550717165219669 / 36028797018963968)"
    by (simp add: round_double_at [where k = "- 3"] rhe_def power_int_minus)
  have r14: "round_double (2456502560328229 / 4503599627370496) = Fin (2456502560328229 / 4503599627370496)"
    by (simp add: round_double_at [where k = "- 1"] rhe_def power_int_minus)
  have r15: "round_double (1842379990859019 / 2251799813685248) = Fin (1842379990859019 / 2251799813685248)"
    by (simp add: round_double_at [where k = "- 1"] rhe_def power_int_minus)
  have r16: "round_double (36028797018963973 / 36028797018963968) = Fin (4503599627370497 / 4503599627370496)"
    by (simp add: round_double_at [where k = "0"] rhe_def power_int_minus)
  show ?thesis
    by (simp add: allocation_weights_def dsum_def round_double_0 Let_def
          r1 r2 r3 r4 r5 r6 r7 r8 r9 r10 r11 r12 r13 r14 r15 r16)
qed
subsection \<open>Properties of the correlation matrix\<close>

lemma dmul_commute: "dmul x y = dmul y x"
  by (cases x; cases y) (simp_all add: mult.commute)

lemma clip_nan_to_num_range: "\<exists>c. np_clip (nan_to_num x) = Fin c \<and> - 1 \<le> c \<and> c \<le> 1"
  by (cases x) auto

lemma corr_matrix_length: "length (corr_matrix cov) = length cov"
  by (simp add: corr_matrix_def mat_div_def np_outer_def np_diag_of_def)

lemma corr_matrix_row_length:
  assumes "square n cov" and "i < n"
  shows "length (corr_matrix cov ! i) = n"
  using assms
  by (simp add: corr_matrix_def mat_div_def np_outer_def np_diag_of_def square_def)

lemma corr_matrix_nth:
  assumes "square n cov" and "i < n" and "j < n"
  shows "corr_matrix cov ! i ! j =
           np_clip (nan_to_num (ddiv (cov ! i ! j)
                                  (dmul (dsqrt (cov ! i ! i)) (dsqrt (cov ! j ! j)))))"
  using assms
  by (simp add: corr_matrix_def mat_div_def np_outer_def np_diag_of_def square_def)

lemma corr_matrix_square: "square n cov \<Longrightarrow> square n (corr_matrix cov)"
  unfolding square_def
  by (auto simp: corr_matrix_length in_set_conv_nth
           intro: corr_matrix_row_length [unfolded square_def])

lemma corr_diag_degenerate:
  assumes "\<not> (\<exists>v. x = Fin v \<and> 0 < v)"
  shows "np_clip (nan_to_num (ddiv x (dmul (dsqrt x) (dsqrt x)))) = Fin 0"
proof (cases x)
  case (Fin v)
  with assms have "v \<le> 0" by auto
  with Fin show ?thesis
    by (cases "v = 0") (simp_all add: round_double_0 inf_of_sign_def)
qed (simp_all add: inf_of_sign_def)

lemma corr_diag_regular:
  assumes lo: "2 powi (- 1000) \<le> v" and hi: "v \<le> 2 ^ 1000"
  shows "\<exists>c. np_clip (nan_to_num (ddiv (Fin v) (dmul (dsqrt (Fin v)) (dsqrt (Fin v))))) = Fin c
           \<and> 1 - 1 / 2 ^ 51 \<le> c \<and> c \<le> 1"
proof -
  define rho :: real where "rho = 1 - 1 / 2 ^ 53"
  have rho: "0 < rho" "rho \<le> 1" "1 / 2 \<le> rho ^ 3" "1 - 1 / 2 ^ 51 \<le> rho ^ 4"
    by (simp_all add: rho_def power_divide)
  have vpos: "0 < v"
    using lo by (rule less_le_trans [rotated]) simp
  \<comment> \<open>the square root\<close>
  have "(2 powi (- 500))\<^sup>2 = (2::real) powi (- 1000)"
    by (simp add: power_int_minus power2_eq_square flip: power_add)
  with lo have "2 powi (- 500) \<le> sqrt v"
    by (intro real_le_rsqrt) simp
  moreover have "(2::real) powi (- 1022) \<le> 2 powi (- 500)"
    by (intro power_int_increasing) simp_all
  ultimately have slo: "2 powi (- 1022) \<le> sqrt v" and slo': "2 powi (- 500) \<le> sqrt v"
    by simp_all
  have "(2 ^ 500)\<^sup>2 = (2::real) ^ 1000"
    by (simp flip: power_mult)
  with hi have shi': "sqrt v \<le> 2 ^ 500"
    by (intro real_le_lsqrt) simp_all
  moreover have "(2::real) ^ 500 \<le> 2 ^ 1023"
    by (intro power_increasing) simp_all
  ultimately have shi: "sqrt v \<le> 2 ^ 1023"
    by simp
  from round_double_pos [OF slo shi] obtain s where
    s: "round_double (sqrt v) = Fin s" and s1: "rho * sqrt v \<le> s" and s2: "s \<le> sqrt v / rho"
    by (auto simp: rho_def)
  have spos: "0 < s"
    using s1 rho(1) vpos by (intro less_le_trans [OF _ s1]) simp
  \<comment> \<open>its square\<close>
  have sq1: "rho\<^sup>2 * v \<le> s * s"
  proof -
    have "(rho * sqrt v) * (rho * sqrt v) \<le> s * s"
      using s1 rho(1) vpos spos by (intro mult_mono) simp_all
    moreover have "(rho * sqrt v) * (rho * sqrt v) = rho\<^sup>2 * v"
      using vpos by (simp add: power2_eq_square algebra_simps)
    ultimately show ?thesis by simp
  qed
  have sq2: "s * s \<le> v / rho\<^sup>2"
  proof -
    have "s * s \<le> (sqrt v / rho) * (sqrt v / rho)"
      using s2 spos by (intro mult_mono) simp_all
    moreover have "(sqrt v / rho) * (sqrt v / rho) = v / rho\<^sup>2"
      using vpos by (simp add: power2_eq_square)
    ultimately show ?thesis by simp
  qed
  have r2: "1 / 2 \<le> rho\<^sup>2"
  proof -
    have "rho ^ 3 \<le> rho\<^sup>2"
      using rho(1,2) by (intro power_decreasing) simp_all
    with rho(3) show ?thesis by simp
  qed
  have plo: "2 powi (- 1022) \<le> s * s"
  proof -
    have "(2::real) powi (- 1022) \<le> (1 / 2) * 2 powi (- 1000)"
      by (simp add: power_int_minus field_simps)
    also have "\<dots> \<le> rho\<^sup>2 * v"
      using r2 lo by (intro mult_mono) simp_all
    finally show ?thesis
      using sq1 by simp
  qed
  have phi: "s * s \<le> 2 ^ 1023"
  proof -
    have "v / rho\<^sup>2 \<le> 2 ^ 1000 / (1 / 2)"
      using r2 hi vpos by (intro frac_le) simp_all
    also have "\<dots> \<le> 2 ^ 1023"
      by simp
    finally show ?thesis
      using sq2 by simp
  qed
  from round_double_pos [OF plo phi] obtain p where
    p: "round_double (s * s) = Fin p" and p1: "rho * (s * s) \<le> p" and p2: "p \<le> s * s / rho"
    by (auto simp: rho_def)
  have ppos: "0 < p"
    using p1 rho(1) spos by (intro less_le_trans [OF _ p1]) simp
  have pl: "rho ^ 3 * v \<le> p"
  proof -
    have "rho * (rho\<^sup>2 * v) \<le> rho * (s * s)"
      using sq1 rho(1) by (intro mult_left_mono) simp_all
    with p1 show ?thesis
      by (simp add: power3_eq_cube power2_eq_square mult.assoc)
  qed
  have pu: "p \<le> v / rho ^ 3"
  proof -
    have "s * s / rho \<le> (v / rho\<^sup>2) / rho"
      using sq2 rho(1) by (intro divide_right_mono) simp_all
    with p2 show ?thesis
      by (simp add: power3_eq_cube power2_eq_square mult.assoc)
  qed
  \<comment> \<open>the quotient\<close>
  have q1: "rho ^ 3 \<le> v / p"
  proof -
    have "rho ^ 3 * p \<le> v"
      using pu rho(1) by (simp add: pos_le_divide_eq mult.commute)
    then show ?thesis
      using ppos by (simp add: pos_le_divide_eq)
  qed
  have q2: "v / p \<le> 1 / rho ^ 3"
  proof -
    have "v \<le> p / rho ^ 3"
      using pl rho(1) by (simp add: pos_le_divide_eq mult.commute)
    then show ?thesis
      using ppos rho(1) by (simp add: pos_divide_le_eq pos_le_divide_eq mult.commute)
  qed
  have qlo: "2 powi (- 1022) \<le> v / p"
  proof -
    have "(2::real) powi (- 1022) \<le> 1 / 2"
      by (simp add: power_int_minus field_simps)
    with rho(3) q1 show ?thesis by linarith
  qed
  have qhi: "v / p \<le> 2 ^ 1023"
  proof -
    have "1 / rho ^ 3 \<le> 1 / (1 / 2)"
      using rho(1,3) by (intro divide_left_mono) simp_all
    moreover have "(2::real) \<le> 2 ^ 1023"
      by simp
    ultimately show ?thesis
      using q2 by simp
  qed
  from round_double_pos [OF qlo qhi] obtain q where
    q: "round_double (v / p) = Fin q" and ql: "rho * (v / p) \<le> q" and qu: "q \<le> v / p / rho"
    by (auto simp: rho_def)
  have "rho * rho ^ 3 \<le> rho * (v / p)"
    using q1 rho(1) by (intro mult_left_mono) simp_all
  with ql have q4: "rho ^ 4 \<le> q"
    by (simp add: eval_nat_numeral)
  with rho(4) have qge: "1 - 1 / 2 ^ 51 \<le> q"
    by simp
  then have qm1: "- 1 \<le> q"
    by simp
  have code: "np_clip (nan_to_num (ddiv (Fin v) (dmul (dsqrt (Fin v)) (dsqrt (Fin v))))) =
                Fin (min (max q (- 1)) 1)"
    using vpos ppos by (simp add: s p q)
  have "1 - 1 / 2 ^ 51 \<le> min (max q (- 1)) 1" and "min (max q (- 1)) 1 \<le> 1"
    using qge by (simp_all add: min_def max_def)
  with code show ?thesis
    by blast
qed

text \<open>
  C2 (as amended). For every square symmetric covariance matrix, whatever its entries
  (zero variances of constant series, NaN, infinities), the correlation matrix has the
  same shape, is symmetric and has every entry finite and in \<open>[-1, 1]\<close>. Its diagonal
  entry is 0 for an asset whose variance is zero, negative or not finite. For an asset
  whose variance is positive it is 1 only up to rounding: for a variance between
  \<open>2\<^sup>-\<^sup>1\<^sup>0\<^sup>0\<^sup>0\<close> and \<open>2\<^sup>1\<^sup>0\<^sup>0\<^sup>0\<close> it lies between \<open>1 - 2\<^sup>-\<^sup>5\<^sup>1\<close> and 1.
\<close>

theorem corr_matrix_sanitized:
  assumes "square n cov_matrix" and "symmetric cov_matrix"
  shows "square n (corr_matrix cov_matrix)
       \<and> symmetric (corr_matrix cov_matrix)
       \<and> (\<forall>i < n. \<forall>j < n. \<exists>c. corr_matrix cov_matrix ! i ! j = Fin c \<and> - 1 \<le> c \<and> c \<le> 1)
       \<and> (\<forall>i < n. \<not> (\<exists>v. cov_matrix ! i ! i = Fin v \<and> 0 < v)
                   \<longrightarrow> corr_matrix cov_matrix ! i ! i = Fin 0)
       \<and> (\<forall>i < n. \<forall>v. cov_matrix ! i ! i = Fin v \<and> 2 powi (- 1000) \<le> v \<and> v \<le> 2 ^ 1000
                   \<longrightarrow> (\<exists>c. corr_matrix cov_matrix ! i ! i = Fin c
                            \<and> 1 - 1 / 2 ^ 51 \<le> c \<and> c \<le> 1))"
proof (intro conjI allI impI)
  show "square n (corr_matrix cov_matrix)"
    by (rule corr_matrix_square [OF assms(1)])
next
  have n: "length cov_matrix = n"
    using assms(1) by (simp add: square_def)
  show "symmetric (corr_matrix cov_matrix)"
    unfolding symmetric_def corr_matrix_length n
  proof (intro allI impI)
    fix i j assume ij: "i < n" "j < n"
    from assms(2) ij n have "cov_matrix ! i ! j = cov_matrix ! j ! i"
      by (simp add: symmetric_def)
    then show "corr_matrix cov_matrix ! i ! j = corr_matrix cov_matrix ! j ! i"
      using ij
      by (simp add: corr_matrix_nth [OF assms(1)]
            dmul_commute [of "dsqrt (cov_matrix ! i ! i)"])
  qed
next
  fix i j assume "i < n" "j < n"
  then show "\<exists>c. corr_matrix cov_matrix ! i ! j = Fin c \<and> - 1 \<le> c \<and> c \<le> 1"
    by (simp only: corr_matrix_nth [OF assms(1)] clip_nan_to_num_range)
next
  fix i assume i: "i < n" and d: "\<not> (\<exists>v. cov_matrix ! i ! i = Fin v \<and> 0 < v)"
  from i show "corr_matrix cov_matrix ! i ! i = Fin 0"
    by (simp only: corr_matrix_nth [OF assms(1)] corr_diag_degenerate [OF d])
next
  fix i v
  assume i: "i < n"
    and v: "cov_matrix ! i ! i = Fin v \<and> 2 powi (- 1000) \<le> v \<and> v \<le> 2 ^ 1000"
  from v corr_diag_regular [of v]
  have "\<exists>c. np_clip (nan_to_num (ddiv (Fin v) (dmul (dsqrt (Fin v)) (dsqrt (Fin v))))) = Fin c
           \<and> 1 - 1 / 2 ^ 51 \<le> c \<and> c \<le> 1"
    by blast
  with i v show "\<exists>c. corr_matrix cov_matrix ! i ! i = Fin c \<and> 1 - 1 / 2 ^ 51 \<le> c \<and> c \<le> 1"
    by (simp only: corr_matrix_nth [OF assms(1)])
qed

theorem corr_matrix_sanitized_witness:
  "symmetric (corr_matrix [[Fin 4, Fin 1], [Fin 1, Fin 0]])
   \<and> (\<exists>c. corr_matrix [[Fin 4, Fin 1], [Fin 1, Fin 0]] ! 0 ! 0 = Fin c
          \<and> 1 - 1 / 2 ^ 51 \<le> c \<and> c \<le> 1)
   \<and> corr_matrix [[Fin 4, Fin 1], [Fin 1, Fin 0]] ! 1 ! 1 = Fin 0"
proof -
  have sq: "square 2 [[Fin 4, Fin 1], [Fin 1, Fin 0]]"
    by (simp add: square_def)
  have sy: "symmetric [[Fin 4, Fin 1], [Fin 1, Fin 0]]"
    by (simp add: symmetric_def less_Suc_eq numeral_2_eq_2)
  have r: "(2::real) powi (- 1000) \<le> 4"
    by (simp add: power_int_minus field_simps)
  from corr_matrix_sanitized [OF sq sy] r show ?thesis
    by simp
qed

text \<open>
  The claim as written fails on a degenerate series: an asset with a constant return
  series has variance 0 and covariance 0 with every other asset, and its diagonal
  entry \<open>0/0\<close> is replaced by 0, not 1.
\<close>

theorem corr_matrix_unit_diagonal_counterexample:
  "corr_matrix [[Fin 0, Fin 0], [Fin 0, Fin 4]] = [[Fin 0, Fin 0], [Fin 0, Fin 1]]
   \<and> corr_matrix [[Fin 0, Fin 0], [Fin 0, Fin 4]] ! 0 ! 0 \<noteq> Fin 1"
proof -
  have r1: "round_double 2 = Fin 2"
    by (simp add: round_double_at [where k = "1"] rhe_def power_int_minus)
  have r2: "round_double 4 = Fin 4"
    by (simp add: round_double_at [where k = "2"] rhe_def power_int_minus)
  have r3: "round_double 1 = Fin 1"
    by (simp add: round_double_at [where k = "0"] rhe_def power_int_minus)
  show ?thesis
    by (simp add: corr_matrix_def mat_div_def np_outer_def np_diag_of_def inf_of_sign_def
          upt_rec [of 0] upt_rec [of 1] upt_rec [of "Suc 0"] round_double_0 r1 r2 r3)
qed

subsection \<open>Properties of the portfolio volatility\<close>





subsection \<open>Properties of the correlation window\<close>

lemma sum_opt_Some: "sum_opt (map Some xs) = Some (sum_list xs)"
  by (induction xs) simp_all

lemma sum_opt_None: "None \<in> set xs \<Longrightarrow> sum_opt xs = None"
  by (induction xs rule: sum_opt.induct) auto

lemma with_index_nth: "t < length rows \<Longrightarrow> with_index rows ! t = (t, rows ! t)"
  by (simp add: with_index_def)

lemma with_index_length: "length (with_index rows) = length rows"
  by (simp add: with_index_def)

lemma filter_upt_ge: "filter (\<lambda>t. h \<le> t) [0 ..< r] = [h ..< r]"
proof (induction r)
  case 0
  then show ?case by simp
next
  case (Suc r)
  then show ?case
    by (cases "h \<le> r") simp_all
qed

lemma take_upt_min: "take m [i ..< n] = [i ..< min (i + m) n]"
proof (cases "i + m \<le> n")
  case True
  then show ?thesis by (simp add: min_def)
next
  case False
  then show ?thesis by (simp add: min_def)
qed

text \<open>
  The frame of daily log returns of a cleaned panel: the first row is missing (there
  is no previous close), every later row is present.
\<close>

lemma rolling_sum_log_returns:
  assumes h: "0 < h" and a: "0 < A" and w: "\<forall>r \<in> set rets. length r = A"
  shows "rolling_sum h (with_index (replicate A None # map (map Some) rets)) =
           map (\<lambda>t. (t, if t < h then (if t + 1 < h then replicate A None
                                      else map (\<lambda>c. None) [0 ..< A])
                         else map (\<lambda>c. Some (\<Sum>d = t + 1 - h..t. rets ! (d - 1) ! c)) [0 ..< A]))
               [0 ..< Suc (length rets)]"
proof -
  let ?lr = "replicate A None # map (map Some) rets"
  have len: "length ?lr = Suc (length rets)"
    by simp
  have rowlen: "\<And>t. t < Suc (length rets) \<Longrightarrow> length (?lr ! t) = A"
    using w by (case_tac t) simp_all
  have cell: "\<And>k c. 0 < k \<Longrightarrow> k < Suc (length rets) \<Longrightarrow> c < A \<Longrightarrow>
                ?lr ! k ! c = Some (rets ! (k - 1) ! c)"
    using w by (case_tac k) simp_all
  show ?thesis
    unfolding rolling_sum_def with_index_length len
  proof (rule map_cong [OF refl])
    fix t assume "t \<in> set [0 ..< Suc (length rets)]"
    then have t: "t < Suc (length rets)" by auto
    have wi: "\<And>k. k \<le> t \<Longrightarrow> with_index ?lr ! k = (k, ?lr ! k)"
      using t by (intro with_index_nth) simp
    have row: "(if t + 1 < h then map (\<lambda>_. None) (?lr ! t)
                else map (\<lambda>c. sum_opt (map (\<lambda>k. ?lr ! k ! c) [t + 1 - h ..< t + 1])) [0 ..< A])
             = (if t < h then (if t + 1 < h then replicate A None else map (\<lambda>c. None) [0 ..< A])
                else map (\<lambda>c. Some (\<Sum>d = t + 1 - h..t. rets ! (d - 1) ! c)) [0 ..< A])"
    proof (cases "t + 1 < h")
      case True
      then show ?thesis
        using rowlen [OF t] by (simp add: map_replicate_const)
    next
      case False
      show ?thesis
      proof (cases "t < h")
        case True
        with False have th: "t + 1 = h" by simp
        have "\<And>c. c < A \<Longrightarrow> sum_opt (map (\<lambda>k. ?lr ! k ! c) [t + 1 - h ..< t + 1]) = None"
        proof (rule sum_opt_None)
          fix c assume "c < A"
          then have "?lr ! 0 ! c = None" by simp
          moreover have "0 \<in> set [t + 1 - h ..< t + 1]" using th by simp
          ultimately show "None \<in> set (map (\<lambda>k. ?lr ! k ! c) [t + 1 - h ..< t + 1])"
            by (metis (mono_tags, lifting) image_eqI list.set_map)
        qed
        with False True show ?thesis by simp
      next
        case ge: False
        have "\<And>c. c < A \<Longrightarrow> sum_opt (map (\<lambda>k. ?lr ! k ! c) [t + 1 - h ..< t + 1])
                 = Some (\<Sum>d = t + 1 - h..t. rets ! (d - 1) ! c)"
        proof -
          fix c assume c: "c < A"
          have "map (\<lambda>k. ?lr ! k ! c) [t + 1 - h ..< t + 1]
                  = map Some (map (\<lambda>k. rets ! (k - 1) ! c) [t + 1 - h ..< t + 1])"
            unfolding map_map
          proof (rule map_cong [OF refl])
            fix k assume "k \<in> set [t + 1 - h ..< t + 1]"
            then have "0 < k" "k < Suc (length rets)"
              using ge h t by auto
            then show "?lr ! k ! c = (Some \<circ> (\<lambda>k. rets ! (k - 1) ! c)) k"
              using cell [OF _ _ c] by simp
          qed
          then have "sum_opt (map (\<lambda>k. ?lr ! k ! c) [t + 1 - h ..< t + 1])
                  = Some (sum_list (map (\<lambda>k. rets ! (k - 1) ! c) [t + 1 - h ..< t + 1]))"
            by (simp only: sum_opt_Some)
          also have "sum_list (map (\<lambda>k. rets ! (k - 1) ! c) [t + 1 - h ..< t + 1])
                  = (\<Sum>d = t + 1 - h..t. rets ! (d - 1) ! c)"
            by (simp only: interv_sum_list_conv_sum_set_nat set_upt Suc_eq_plus1 [symmetric]
                  atLeastLessThanSuc_atLeastAtMost)
          finally show "sum_opt (map (\<lambda>k. ?lr ! k ! c) [t + 1 - h ..< t + 1])
                 = Some (\<Sum>d = t + 1 - h..t. rets ! (d - 1) ! c)" .
        qed
        with False ge show ?thesis by simp
      qed
    qed
    show "(fst (with_index ?lr ! t),
            if t + 1 < h then map (\<lambda>_. None) (snd (with_index ?lr ! t))
            else map (\<lambda>c. sum_opt (map (\<lambda>k. snd (with_index ?lr ! k) ! c) [t + 1 - h ..< t + 1]))
                     [0 ..< length (snd (with_index ?lr ! t))])
        = (t, if t < h then (if t + 1 < h then replicate A None else map (\<lambda>c. None) [0 ..< A])
              else map (\<lambda>c. Some (\<Sum>d = t + 1 - h..t. rets ! (d - 1) ! c)) [0 ..< A])"
    proof -
      have inner: "\<And>c. map (\<lambda>k. snd (with_index ?lr ! k) ! c) [t + 1 - h ..< t + 1]
                     = map (\<lambda>k. ?lr ! k ! c) [t + 1 - h ..< t + 1]"
      proof (rule map_cong [OF refl])
        fix c k assume "k \<in> set [t + 1 - h ..< t + 1]"
        then have "k \<le> t" by auto
        then show "snd (with_index ?lr ! k) ! c = ?lr ! k ! c"
          by (simp only: wi snd_conv)
      qed
      show ?thesis
        by (simp only: wi [OF order_refl] fst_conv snd_conv rowlen [OF t] inner row)
    qed
  qed
qed

lemma log7_log_returns:
  assumes h: "0 < h" and a: "0 < A" and w: "\<forall>r \<in> set rets. length r = A"
  shows "log7 h (replicate A None # map (map Some) rets) =
           map (\<lambda>t. (t, map (\<lambda>c. \<Sum>d = t + 1 - h..t. rets ! (d - 1) ! c) [0 ..< A]))
               [h ..< Suc (length rets)]"
proof -
  let ?row = "\<lambda>t. if t < h then (if t + 1 < h then replicate A None
                                   else map (\<lambda>c. None) [0 ..< A])
                     else map (\<lambda>c. Some (\<Sum>d = t + 1 - h..t. rets ! (d - 1) ! c)) [0 ..< A]"
  let ?g = "\<lambda>t. (t, ?row t)"
  have keep: "\<And>t. (None \<notin> set (?row t)) = (h \<le> t)"
    using a by auto
  have "filter (\<lambda>(d, row). None \<notin> set row) (map ?g [0 ..< Suc (length rets)])
          = map ?g (filter (\<lambda>t. None \<notin> set (?row t)) [0 ..< Suc (length rets)])"
    by (simp only: filter_map o_def split_conv)
  also have "\<dots> = map ?g [h ..< Suc (length rets)]"
    by (simp only: keep filter_upt_ge)
  finally have f: "filter (\<lambda>(d, row). None \<notin> set row) (map ?g [0 ..< Suc (length rets)])
          = map ?g [h ..< Suc (length rets)]" .
  have "map (\<lambda>(d, row). (d, map the row)) (map ?g [h ..< Suc (length rets)])
          = map (\<lambda>t. (t, map (\<lambda>c. \<Sum>d = t + 1 - h..t. rets ! (d - 1) ! c) [0 ..< A]))
                [h ..< Suc (length rets)]"
    unfolding map_map
  proof (rule map_cong [OF refl])
    fix t assume "t \<in> set [h ..< Suc (length rets)]"
    then have "\<not> t < h" by auto
    then show "((\<lambda>(d, row). (d, map the row)) \<circ> ?g) t
                 = (t, map (\<lambda>c. \<Sum>d = t + 1 - h..t. rets ! (d - 1) ! c) [0 ..< A])"
      by (simp add: o_def)
  qed
  then show ?thesis
    unfolding log7_def dropna_def
    by (simp only: rolling_sum_log_returns [OF assms] f)
qed

text \<open>
  C5 (as amended). On the daily log returns of a cleaned panel (first row missing,
  every later row present), with \<open>horizon > 0\<close> and at least one asset: \<open>log7\<close> has one
  row for every date \<open>t \<ge> horizon\<close>, holding the sum of the \<open>horizon\<close> daily log
  returns of the dates \<open>t - horizon + 1, \<dots>, t\<close> (consecutive rows share
  \<open>horizon - 1\<close> days); \<open>window_data\<close> is a prefix of that series, each sum \<open>x\<close>
  turned into \<open>exp x - 1\<close>; and \<open>cov_matrix\<close> is the matrix which the exponentially
  weighted covariance (span \<open>horizon\<close>) of \<open>window_data\<close> has at its last row.
\<close>

theorem correlation_window_rolling_sums:
  assumes "0 < horizon" and "0 < A" and "\<forall>r \<in> set rets. length r = A"
  shows "log7 horizon (replicate A None # map (map Some) rets) =
           map (\<lambda>t. (t, map (\<lambda>c. \<Sum>d = t + 1 - horizon..t. rets ! (d - 1) ! c) [0 ..< A]))
               [horizon ..< Suc (length rets)]
       \<and> window_data horizon (replicate A None # map (map Some) rets) pred_idx sequence_length =
           map (\<lambda>t. (t, map (\<lambda>c. exp (\<Sum>d = t + 1 - horizon..t. rets ! (d - 1) ! c) - 1) [0 ..< A]))
               [horizon ..< min (horizon + (pred_idx + sequence_length)) (Suc (length rets))]
       \<and> (\<exists>m. map snd (window_data horizon (replicate A None # map (map Some) rets)
                          pred_idx sequence_length)
               = map (map (\<lambda>x. exp x - 1))
                   (take m (map snd (log7 horizon (replicate A None # map (map Some) rets)))))
       \<and> (window_data horizon (replicate A None # map (map Some) rets) pred_idx sequence_length
            \<noteq> [] \<longrightarrow>
          cov_matrix_of ewm_cov_fn horizon (replicate A None # map (map Some) rets)
              pred_idx sequence_length =
            (case map_of (ewm_cov_fn horizon
                            (window_data horizon (replicate A None # map (map Some) rets)
                               pred_idx sequence_length))
                         (fst (last (window_data horizon
                                       (replicate A None # map (map Some) rets)
                                       pred_idx sequence_length))) of
               None \<Rightarrow> Inl KeyError
             | Some cov_matrix \<Rightarrow> Inr cov_matrix))"
proof (intro conjI impI)
  let ?lr = "replicate A None # map (map Some) rets"
  show l7: "log7 horizon ?lr =
           map (\<lambda>t. (t, map (\<lambda>c. \<Sum>d = t + 1 - horizon..t. rets ! (d - 1) ! c) [0 ..< A]))
               [horizon ..< Suc (length rets)]"
    by (rule log7_log_returns [OF assms])
  show "window_data horizon ?lr pred_idx sequence_length =
           map (\<lambda>t. (t, map (\<lambda>c. exp (\<Sum>d = t + 1 - horizon..t. rets ! (d - 1) ! c) - 1) [0 ..< A]))
               [horizon ..< min (horizon + (pred_idx + sequence_length)) (Suc (length rets))]"
    unfolding window_data_def log7_window_def l7 take_map take_upt_min
    by (simp add: o_def)
  show "\<exists>m. map snd (window_data horizon ?lr pred_idx sequence_length)
               = map (map (\<lambda>x. exp x - 1)) (take m (map snd (log7 horizon ?lr)))"
    unfolding window_data_def log7_window_def
    by (intro exI [of _ "pred_idx + sequence_length"])
       (simp add: take_map o_def split_def)
  assume "window_data horizon ?lr pred_idx sequence_length \<noteq> []"
  then show "cov_matrix_of ewm_cov_fn horizon ?lr pred_idx sequence_length =
            (case map_of (ewm_cov_fn horizon (window_data horizon ?lr pred_idx sequence_length))
                         (fst (last (window_data horizon ?lr pred_idx sequence_length))) of
               None \<Rightarrow> Inl KeyError
             | Some cov_matrix \<Rightarrow> Inr cov_matrix)"
    by (simp add: cov_matrix_of_def Let_def)
qed

theorem correlation_window_rolling_sums_witness:
  "log7 2 [[None], [Some 1], [Some 2], [Some 4], [Some 8], [Some 16]]
     = [(2, [3]), (3, [6]), (4, [12]), (5, [24])]"
proof -
  have a: "(0::nat) < 2" and b: "(0::nat) < 1"
    and c: "\<forall>r \<in> set [[1], [2], [4], [8], [16 :: real]]. length r = 1"
    by simp_all
  have e: "[2 ..< Suc (length [[1], [2], [4], [8], [16 :: real]])] = [2, 3, 4, 5]"
    by (simp add: upt_rec [of _ "Suc _"] upt_rec [of _ "numeral _"])
  from correlation_window_rolling_sums [OF a b c, of 0 0 "\<lambda>_ _. []"]
  have "log7 2 (replicate 1 None # map (map Some) [[1], [2], [4], [8], [16]]) =
           map (\<lambda>t. (t, map (\<lambda>c. \<Sum>d = t + 1 - 2..t. [[1], [2], [4], [8], [16 :: real]] ! (d - 1) ! c) [0 ..< 1]))
               [2 ..< Suc (length [[1], [2], [4], [8], [16 :: real]])]"
    by (rule conjunct1)
  then show ?thesis
    unfolding e by (simp add: atLeastAtMost_upt upt_rec [of _ "Suc _"] upt_rec [of _ "numeral _"])
qed

text \<open>
  The claim as written fails. With \<open>horizon = 2\<close>, \<open>sequence_length = 2\<close> and
  \<open>pred_idx = 2\<close> the step's date is 3, but the window holds the rows dated 2 to 5:
  consecutive rows share a day (\<open>1 + 2\<close>, \<open>2 + 4\<close>, \<open>4 + 8\<close>, \<open>8 + 16\<close>), where blocks
  that do not overlap give the single sum \<open>1 + 2\<close> up to date 3, and a change of the
  return of date 5, after the step's date, changes the window.
\<close>

theorem correlation_window_counterexample:
  "step_date [[None], [Some 1], [Some 2], [Some 4], [Some 8], [Some 16]] 2 2 = Inr 3
   \<and> log7_window 2 [[None], [Some 1], [Some 2], [Some 4], [Some 8], [Some 16]] 2 2
       = [(2, [3]), (3, [6]), (4, [12]), (5, [24])]
   \<and> spec_nonoverlapping_sums 2 [[None], [Some 1], [Some 2], [Some 4], [Some 8], [Some 16]] 3
       = [[3]]
   \<and> take 4 [[None], [Some 1], [Some 2], [Some 4], [Some 8], [Some (17 :: real)]]
       = take 4 [[None], [Some 1], [Some 2], [Some 4], [Some 8], [Some 16]]
   \<and> log7_window 2 [[None], [Some 1], [Some 2], [Some 4], [Some 8], [Some 17]] 2 2
       \<noteq> log7_window 2 [[None], [Some 1], [Some 2], [Some 4], [Some 8], [Some 16]] 2 2"
  by (simp add: step_date_def iloc_row_def log7_window_def log7_def dropna_def rolling_sum_def
        with_index_def spec_nonoverlapping_sums_def column_sums_def ncols_def
        upt_rec [of _ "Suc _"] upt_rec [of _ "numeral _"])

subsection \<open>Properties of the composite loss\<close>

lemma map2_upt:
  assumes "length xs = n" and "length ys = n"
  shows "map2 f xs ys = map (\<lambda>j. f (xs ! j) (ys ! j)) [0 ..< n]"
  using assms by (intro nth_equalityI) simp_all

lemma elementwise_upt:
  assumes "length a = B" and "length b = B"
    and "\<And>i. i < B \<Longrightarrow> length (a ! i) = n" and "\<And>i. i < B \<Longrightarrow> length (b ! i) = n"
  shows "elementwise f a b = map (\<lambda>i. map (\<lambda>j. f (a ! i ! j) (b ! i ! j)) [0 ..< n]) [0 ..< B]"
  unfolding elementwise_def
  by (simp only: map2_upt [OF assms(1,2)]) (rule map_cong [OF refl], simp add: map2_upt assms(3,4))

lemma shifted_rows:
  assumes "length y = B" and "\<forall>r \<in> set y. length r = A"
  shows "length (map (drop 1) y) = B" and "length (map butlast y) = B"
    and "\<And>i. i < B \<Longrightarrow> length (map (drop 1) y ! i) = A - 1"
    and "\<And>i. i < B \<Longrightarrow> length (map butlast y ! i) = A - 1"
    and "\<And>i j. i < B \<Longrightarrow> j < A - Suc 0 \<Longrightarrow> map (drop (Suc 0)) y ! i ! j = y ! i ! Suc j"
    and "\<And>i j. i < B \<Longrightarrow> j < A - Suc 0 \<Longrightarrow> map butlast y ! i ! j = y ! i ! j"
  using assms by (simp_all add: nth_butlast)

lemma pred_dir_upt:
  assumes "length y_pred = B" and "\<forall>r \<in> set y_pred. length r = A"
    and "length y_batch = B" and "\<forall>r \<in> set y_batch. length r = A"
  shows "pred_dir y_pred y_batch =
           map (\<lambda>b. map (\<lambda>j. spec_logit y_pred y_batch b j) [0 ..< A - 1]) [0 ..< B]"
proof -
  note p = shifted_rows [OF assms(1,2)] and y = shifted_rows [OF assms(3,4)]
  have "pred_dir y_pred y_batch =
          map (\<lambda>i. map (\<lambda>j. np_sign (map (drop 1) y_pred ! i ! j - map butlast y_batch ! i ! j))
                        [0 ..< A - 1]) [0 ..< B]"
    unfolding pred_dir_def by (rule elementwise_upt [OF p(1) y(2) p(3) y(4)])
  also have "\<dots> = map (\<lambda>b. map (\<lambda>j. spec_logit y_pred y_batch b j) [0 ..< A - 1]) [0 ..< B]"
    by (intro map_cong refl) (simp add: spec_logit_def p(5) y(6))
  finally show ?thesis .
qed

lemma true_dir_upt:
  assumes "length y_batch = B" and "\<forall>r \<in> set y_batch. length r = A"
  shows "map (map (\<lambda>t. if t > 0 then 1 else 0)) (true_dir y_batch) =
           map (\<lambda>b. map (\<lambda>j. spec_label y_batch b j) [0 ..< A - 1]) [0 ..< B]"
proof -
  note y = shifted_rows [OF assms]
  have "true_dir y_batch =
          map (\<lambda>i. map (\<lambda>j. np_sign (map (drop 1) y_batch ! i ! j - map butlast y_batch ! i ! j))
                        [0 ..< A - 1]) [0 ..< B]"
    unfolding true_dir_def by (rule elementwise_upt [OF y(1) y(2) y(3) y(4)])
  also have "\<dots> = map (\<lambda>b. map (\<lambda>j. np_sign (y_batch ! b ! (j + 1) - y_batch ! b ! j)) [0 ..< A - 1])
                        [0 ..< B]"
    by (intro map_cong refl) (simp add: y(5) y(6))
  finally show ?thesis
    by (simp add: spec_label_def o_def)
qed

lemma elementwise_tabulated:
  "elementwise f (map (\<lambda>b. map (g b) [0 ..< n]) [0 ..< B]) (map (\<lambda>b. map (h b) [0 ..< n]) [0 ..< B])
     = map (\<lambda>b. map (\<lambda>j. f (g b j) (h b j)) [0 ..< n]) [0 ..< B]"
proof -
  have "elementwise f (map (\<lambda>b. map (g b) [0 ..< n]) [0 ..< B])
                      (map (\<lambda>b. map (h b) [0 ..< n]) [0 ..< B])
        = map (\<lambda>i. map (\<lambda>j. f (map (\<lambda>b. map (g b) [0 ..< n]) [0 ..< B] ! i ! j)
                               (map (\<lambda>b. map (h b) [0 ..< n]) [0 ..< B] ! i ! j)) [0 ..< n])
              [0 ..< B]"
    by (rule elementwise_upt) simp_all
  also have "\<dots> = map (\<lambda>b. map (\<lambda>j. f (g b j) (h b j)) [0 ..< n]) [0 ..< B]"
    by (intro map_cong refl) simp
  finally show ?thesis .
qed

text \<open>
  C4. For a batch of \<open>B\<close> rows and \<open>A\<close> assets, the loss is the mean squared error
  between \<open>y_pred\<close> and \<open>y_batch\<close> plus \<open>lambda_dir\<close> times the binary cross-entropy
  whose logit at row \<open>b\<close>, position \<open>j < A - 1\<close> is
  \<open>sign (y_pred[b][j + 1] - y_batch[b][j])\<close>, a predicted value minus a true value, and
  whose label there is 1 exactly when \<open>sign (y_batch[b][j + 1] - y_batch[b][j]) > 0\<close>;
  it equals the loss written entry by entry in the words of the specification.
\<close>

theorem composite_loss_directional_term:
  assumes "length y_pred = B" and "\<forall>r \<in> set y_pred. length r = A"
    and "length y_batch = B" and "\<forall>r \<in> set y_batch. length r = A"
  shows "composite_loss lambda_dir y_pred y_batch =
           fadd (mse_loss y_pred y_batch)
                (fmul (Fin lambda_dir)
                   (bce_with_logits_loss (pred_dir y_pred y_batch)
                      (map (map (\<lambda>t. if t > 0 then 1 else 0)) (true_dir y_batch))))
       \<and> pred_dir y_pred y_batch =
           map (\<lambda>b. map (\<lambda>j. np_sign (y_pred ! b ! (j + 1) - y_batch ! b ! j)) [0 ..< A - 1])
               [0 ..< B]
       \<and> map (map (\<lambda>t. if t > 0 then 1 else 0)) (true_dir y_batch) =
           map (\<lambda>b. map (\<lambda>j. if np_sign (y_batch ! b ! (j + 1) - y_batch ! b ! j) > 0
                              then 1 else (0::real)) [0 ..< A - 1])
               [0 ..< B]
       \<and> composite_loss lambda_dir y_pred y_batch =
           spec_composite_loss B A lambda_dir y_pred y_batch"
proof (intro conjI)
  show "composite_loss lambda_dir y_pred y_batch =
           fadd (mse_loss y_pred y_batch)
                (fmul (Fin lambda_dir)
                   (bce_with_logits_loss (pred_dir y_pred y_batch)
                      (map (map (\<lambda>t. if t > 0 then 1 else 0)) (true_dir y_batch))))"
    by (simp add: composite_loss_def)
  have pd: "pred_dir y_pred y_batch =
              map (\<lambda>b. map (\<lambda>j. spec_logit y_pred y_batch b j) [0 ..< A - 1]) [0 ..< B]"
    by (rule pred_dir_upt [OF assms])
  have td: "map (map (\<lambda>t. if t > 0 then 1 else 0)) (true_dir y_batch) =
              map (\<lambda>b. map (\<lambda>j. spec_label y_batch b j) [0 ..< A - 1]) [0 ..< B]"
    by (rule true_dir_upt [OF assms(3,4)])
  show "pred_dir y_pred y_batch =
           map (\<lambda>b. map (\<lambda>j. np_sign (y_pred ! b ! (j + 1) - y_batch ! b ! j)) [0 ..< A - 1])
               [0 ..< B]"
    using pd by (simp only: spec_logit_def)
  show "map (map (\<lambda>t. if t > 0 then 1 else 0)) (true_dir y_batch) =
           map (\<lambda>b. map (\<lambda>j. if np_sign (y_batch ! b ! (j + 1) - y_batch ! b ! j) > 0
                              then 1 else (0::real)) [0 ..< A - 1])
               [0 ..< B]"
    using td by (simp only: spec_label_def)
  have rows: "\<And>i. i < B \<Longrightarrow> length (y_pred ! i) = A" "\<And>i. i < B \<Longrightarrow> length (y_batch ! i) = A"
    using assms by simp_all
  have mse: "mse_loss y_pred y_batch =
               tensor_mean (concat (map (\<lambda>b. map (\<lambda>j. (y_pred ! b ! j - y_batch ! b ! j)\<^sup>2) [0 ..< A])
                                        [0 ..< B]))"
    unfolding mse_loss_def
    by (simp only: elementwise_upt [OF assms(1) assms(3) rows])
  have bce: "bce_with_logits_loss (pred_dir y_pred y_batch)
                 (map (map (\<lambda>t. if t > 0 then 1 else 0)) (true_dir y_batch))
             = tensor_mean (concat (map (\<lambda>b. map (\<lambda>j. bce_term (spec_logit y_pred y_batch b j)
                                                              (spec_label y_batch b j))
                                                [0 ..< A - 1])
                                       [0 ..< B]))"
    unfolding bce_with_logits_loss_def
    by (simp only: pd td elementwise_tabulated)
  show "composite_loss lambda_dir y_pred y_batch =
           spec_composite_loss B A lambda_dir y_pred y_batch"
    unfolding composite_loss_def Let_def spec_composite_loss_def
    by (simp only: mse bce)
qed

theorem composite_loss_directional_term_witness:
  "pred_dir [[0, 1, 5]] [[2, 3, 4]] = [[- 1, 1]]
   \<and> map (map (\<lambda>t. if t > 0 then 1 else 0)) (true_dir [[2, 3, 4]]) = [[1, 1 :: real]]"
proof -
  have a: "length [[0, 1, 5 :: real]] = 1" and b: "\<forall>r \<in> set [[0, 1, 5 :: real]]. length r = 3"
    and c: "length [[2, 3, 4 :: real]] = 1" and d: "\<forall>r \<in> set [[2, 3, 4 :: real]]. length r = 3"
    by simp_all
  from composite_loss_directional_term [OF a b c d, of 1]
  show ?thesis
    by (simp add: np_sign_def upt_rec [of _ "Suc _"] upt_rec [of _ "numeral _"])
qed

subsection \<open>Properties of training and early stopping\<close>

lemma copy_params_same:
  assumes "\<forall>(name, a) \<in> set ps. map_of sd name = Some a"
  shows "copy_params ps sd h = Inr h"
  using assms by (induction ps arbitrary: h) auto

lemma load_state_dict_own:
  assumes "distinct (map fst (named_parameters model))"
  shows "load_state_dict model (state_dict model) h = Inr h"
proof -
  have "\<forall>(name, a) \<in> set (named_parameters model). map_of (named_parameters model) name = Some a"
    using assms by auto
  then have "copy_params (named_parameters model) (named_parameters model) h = Inr h"
    by (rule copy_params_same)
  moreover have "\<not> list_ex (\<lambda>k. k \<notin> set (map fst (named_parameters model)))
                     (map fst (named_parameters model))"
    by (simp add: list_ex_iff)
  ultimately show ?thesis
    by (simp add: load_state_dict_def state_dict_def)
qed

lemma train_batch_best_model_state [simp]:
  "best_model_state (train_batch nt model w batch) = best_model_state w"
  by (simp add: train_batch_def Let_def split: prod.splits)

lemma train_epoch_best_model_state [simp]:
  "best_model_state (train_epoch nt model batches w) = best_model_state w"
  by (induction batches arbitrary: w) simp_all

lemma training_loop_best_model_state:
  assumes "training_loop nt model train_loader patience n w = Inr w'"
    and "best_model_state w = state_dict model"
  shows "best_model_state w' = state_dict model"
  using assms
proof (induction n arbitrary: w)
  case 0
  then show ?case by simp
next
  case (Suc n)
  let ?w1 = "train_epoch nt model train_loader w"
  from Suc.prems(1) obtain l where l: "loss ?w1 = Some l"
    by (auto simp: Let_def split: option.splits)
  show ?case
  proof (cases "flt l (best_loss ?w1)")
    case True
    with Suc.prems(1) l
    have "training_loop nt model train_loader patience n
            (?w1\<lparr>best_loss := l, wait := 0, best_model_state := state_dict model\<rparr>) = Inr w'"
      by (simp add: Let_def)
    then show ?thesis
      by (rule Suc.IH) simp
  next
    case False
    let ?w2 = "?w1\<lparr>wait := wait ?w1 + 1\<rparr>"
    show ?thesis
    proof (cases "wait ?w2 \<ge> patience")
      case True
      with False Suc.prems(1) l have "w' = ?w2"
        by (simp add: Let_def)
      with Suc.prems(2) show ?thesis by simp
    next
      case stop: False
      with False Suc.prems(1) l
      have "training_loop nt model train_loader patience n ?w2 = Inr w'"
        by (simp add: Let_def)
      moreover have "best_model_state ?w2 = state_dict model"
        using Suc.prems(2) by simp
      ultimately show ?thesis
        by (rule Suc.IH)
    qed
  qed
qed

text \<open>Restoring the snapshot changes nothing: prediction uses what the last epoch left.\<close>

lemma fit_keeps_last_epoch:
  assumes "distinct (map fst (named_parameters model))"
  shows "fit nt model train_loader num_epochs patience learning_rate w =
           training_loop nt model train_loader patience num_epochs
             (start_training model learning_rate w)"
proof (cases "training_loop nt model train_loader patience num_epochs
                (start_training model learning_rate w)")
  case (Inl e)
  then show ?thesis by (simp add: fit_def)
next
  case (Inr w1)
  then have "best_model_state w1 = state_dict model"
    by (rule training_loop_best_model_state) (simp add: start_training_def)
  with Inr show ?thesis
    by (simp add: fit_def load_state_dict_own [OF assms])
qed

text \<open>
  C1, at a failing input. One parameter tensor \<open>[0]\<close>, one batch per epoch, a loss of
  minus the parameter and a gradient of 1, \<open>patience = 3\<close>, learning rate \<open>3e-4\<close>. The
  loss is 0 in the first epoch and larger in every later one, so the best-loss epoch
  is the first; after it the parameter is \<open>-30000/100000001\<close> (first equation, one
  epoch). Training stops after the fourth epoch, and the model that \<open>fit\<close> returns for
  prediction holds \<open>-120000/100000001\<close>, the parameter of the fourth epoch, although
  \<open>best_loss\<close> is still the 0 of the first (second equation).
\<close>

theorem fit_restores_final_epoch:
  "map_sum id (\<lambda>w. (best_loss w, wait w, store w 0))
     (fit \<lparr>forward_backward = (\<lambda>ps batch r. (Fin (- hd (hd ps)), [[1]], r)),
           manual_seed = (\<lambda>seed. ())\<rparr>
          \<lparr>named_parameters = [(''fc.bias'', 0)]\<rparr> [()] 1 3 (3 / 10000)
          \<lparr>store = (\<lambda>a. [0]), rng = (), optimizer = Adam [] 0, loss = None,
           best_loss = NaN, wait = 0, best_model_state = []\<rparr>)
     = Inr (Fin 0, 0, [- 30000 / 100000001])
   \<and> map_sum id (\<lambda>w. (best_loss w, wait w, store w 0))
     (fit \<lparr>forward_backward = (\<lambda>ps batch r. (Fin (- hd (hd ps)), [[1]], r)),
           manual_seed = (\<lambda>seed. ())\<rparr>
          \<lparr>named_parameters = [(''fc.bias'', 0)]\<rparr> [()] 50 3 (3 / 10000)
          \<lparr>store = (\<lambda>a. [0]), rng = (), optimizer = Adam [] 0, loss = None,
           best_loss = NaN, wait = 0, best_model_state = []\<rparr>)
     = Inr (Fin 0, 3, [- 120000 / 100000001])"
  by (simp add: fit_def start_training_def load_state_dict_def state_dict_def parameters_def
        Adam_def train_batch_def optimizer_step_def adam_update_def Let_def numeral_eq_Suc)

lemma adam_step_params_other:
  "a \<notin> fst ` set zs \<Longrightarrow> fst (adam_step_params rate zs st h) a = st a"
  by (induction zs arbitrary: st h) (auto simp: Let_def split: prod.splits)

lemma adam_step_params_count:
  assumes "distinct (map fst zs)" and "a \<in> fst ` set zs"
  shows "\<exists>s. fst (adam_step_params rate zs st h) a = Some s
           \<and> step_count s = (case st a of None \<Rightarrow> 1 | Some s0 \<Rightarrow> step_count s0 + 1)"
  using assms
proof (induction zs arbitrary: st h)
  case Nil
  then show ?case by simp
next
  case (Cons z zs)
  obtain b g where z: "z = (b, g)" by (cases z)
  let ?s0 = "case st b of
               None \<Rightarrow> \<lparr>step_count = 0, exp_avg = map (\<lambda>_. 0) (h b),
                         exp_avg_sq = map (\<lambda>_. 0) (h b)\<rparr>
             | Some s \<Rightarrow> s"
  obtain s1 p1 where u: "adam_update rate ?s0 g (h b) = (s1, p1)"
    by (cases "adam_update rate ?s0 g (h b)")
  have s1: "step_count s1 = step_count ?s0 + 1"
    using u by (auto simp: adam_update_def Let_def)
  have unfold: "adam_step_params rate (z # zs) st h =
                  adam_step_params rate zs (st(b \<mapsto> s1)) (h(b := p1))"
    using u by (simp add: z Let_def)
  show ?case
  proof (cases "a = b")
    case True
    with Cons.prems(1) z have "a \<notin> fst ` set zs"
      by auto
    then have "fst (adam_step_params rate zs (st(b \<mapsto> s1)) (h(b := p1))) a = (st(b \<mapsto> s1)) a"
      by (rule adam_step_params_other)
    with True s1 show ?thesis
      unfolding unfold by (auto split: option.splits)
  next
    case False
    with Cons.prems z have "distinct (map fst zs)" and "a \<in> fst ` set zs"
      by auto
    from Cons.IH [OF this, of "st(b \<mapsto> s1)" "h(b := p1)"]
    obtain s where s: "fst (adam_step_params rate zs (st(b \<mapsto> s1)) (h(b := p1))) a = Some s"
      and c: "step_count s = (case (st(b \<mapsto> s1)) a of None \<Rightarrow> 1 | Some s0 \<Rightarrow> step_count s0 + 1)"
      by blast
    from False have "(st(b \<mapsto> s1)) a = st a"
      by simp
    with s c show ?thesis
      unfolding unfold by (intro exI [of _ s]) (simp only: simp_thms)
  qed
qed

lemma first_step_counts:
  assumes d: "distinct (parameters model)"
    and g: "length (fst (snd (forward_backward nt (map (store w) (parameters model)) batch (rng w))))
              = length (parameters model)"
    and a: "a \<in> set (parameters model)"
  shows "\<exists>s. state (optimizer (train_batch nt model (start_training model rate w) batch)) a = Some s
           \<and> step_count s = 1"
proof -
  obtain l grads r where fb:
    "forward_backward nt (map (store w) (parameters model)) batch (rng w) = (l, grads, r)"
    by (cases "forward_backward nt (map (store w) (parameters model)) batch (rng w)") auto
  with g have len: "length grads = length (parameters model)"
    by simp
  let ?zs = "zip (parameters model) grads"
  have fstz: "map fst ?zs = parameters model"
    using len by simp
  have dz: "distinct (map fst ?zs)"
    using d by (simp only: fstz)
  have az: "a \<in> fst ` set ?zs"
    using a fstz by (metis list.set_map)
  from adam_step_params_count [OF dz az, of rate Map.empty "store w"]
  obtain s where s: "fst (adam_step_params rate ?zs Map.empty (store w)) a = Some s"
    and c: "step_count s = 1"
    by auto
  have "state (optimizer (train_batch nt model (start_training model rate w) batch)) =
          fst (adam_step_params rate ?zs Map.empty (store w))"
    by (simp add: train_batch_def start_training_def optimizer_step_def Adam_def fb Let_def
          split: prod.splits)
  with s c show ?thesis
    by auto
qed

text \<open>
  C10. Every walk-forward step assigns a newly constructed Adam optimizer before it
  trains: the step's result does not depend on the optimizer the previous step left
  behind; the optimizer that training starts with has no state for any parameter (no
  step count, no moment estimates), and after the step's first \<open>optimizer.step()\<close>
  every parameter's step count is 1. The parameters are not touched by these
  assignments: training starts from the store the previous step returned, since the
  loop hands each step's world to the next.
\<close>

theorem optimizer_fresh_parameters_warm:
  "walk_forward_step nt model train_loader_of num_epochs patience learning_rate t
       (w\<lparr>optimizer := opt\<rparr>)
     = walk_forward_step nt model train_loader_of num_epochs patience learning_rate t w
   \<and> walk_forward_step nt model train_loader_of num_epochs patience learning_rate t w
     = (case training_loop nt model (train_loader_of t) patience num_epochs
               (start_training model learning_rate (w\<lparr>rng := manual_seed nt (42 + t)\<rparr>)) of
          Inl e \<Rightarrow> Inl e
        | Inr w1 \<Rightarrow>
            (case load_state_dict model (best_model_state w1) (store w1) of
               Inl e \<Rightarrow> Inl e
             | Inr h \<Rightarrow> Inr (w1\<lparr>store := h\<rparr>)))
   \<and> optimizer (start_training model learning_rate (w\<lparr>rng := manual_seed nt (42 + t)\<rparr>))
     = Adam (parameters model) learning_rate
   \<and> state (Adam (parameters model) learning_rate) = Map.empty
   \<and> store (start_training model learning_rate (w\<lparr>rng := manual_seed nt (42 + t)\<rparr>)) = store w
   \<and> (distinct (parameters model)
        \<and> length (fst (snd (forward_backward nt (map (store w) (parameters model)) batch (rng w))))
            = length (parameters model)
      \<longrightarrow> (\<forall>a \<in> set (parameters model).
             \<exists>s. state (optimizer (train_batch nt model (start_training model learning_rate w) batch)) a
                    = Some s
                \<and> step_count s = 1))
   \<and> walk_forward nt model train_loader_of num_epochs patience learning_rate (t # ts) w
     = (case walk_forward_step nt model train_loader_of num_epochs patience learning_rate t w of
          Inl e \<Rightarrow> Inl e
        | Inr w' \<Rightarrow>
            walk_forward nt model train_loader_of num_epochs patience learning_rate ts w')"
proof (intro conjI impI ballI)
  show "walk_forward_step nt model train_loader_of num_epochs patience learning_rate t
       (w\<lparr>optimizer := opt\<rparr>)
     = walk_forward_step nt model train_loader_of num_epochs patience learning_rate t w"
    by (simp add: walk_forward_step_def fit_def start_training_def)
  show "walk_forward_step nt model train_loader_of num_epochs patience learning_rate t w
     = (case training_loop nt model (train_loader_of t) patience num_epochs
               (start_training model learning_rate (w\<lparr>rng := manual_seed nt (42 + t)\<rparr>)) of
          Inl e \<Rightarrow> Inl e
        | Inr w1 \<Rightarrow>
            (case load_state_dict model (best_model_state w1) (store w1) of
               Inl e \<Rightarrow> Inl e
             | Inr h \<Rightarrow> Inr (w1\<lparr>store := h\<rparr>)))"
    by (simp add: walk_forward_step_def fit_def)
  show "optimizer (start_training model learning_rate (w\<lparr>rng := manual_seed nt (42 + t)\<rparr>))
     = Adam (parameters model) learning_rate"
    by (simp add: start_training_def)
  show "state (Adam (parameters model) learning_rate) = Map.empty"
    by (simp add: Adam_def)
  show "store (start_training model learning_rate (w\<lparr>rng := manual_seed nt (42 + t)\<rparr>)) = store w"
    by (simp add: start_training_def)
  show "walk_forward nt model train_loader_of num_epochs patience learning_rate (t # ts) w
     = (case walk_forward_step nt model train_loader_of num_epochs patience learning_rate t w of
          Inl e \<Rightarrow> Inl e
        | Inr w' \<Rightarrow>
            walk_forward nt model train_loader_of num_epochs patience learning_rate ts w')"
    by simp
next
  fix a
  assume "distinct (parameters model)
        \<and> length (fst (snd (forward_backward nt (map (store w) (parameters model)) batch (rng w))))
            = length (parameters model)"
    and "a \<in> set (parameters model)"
  then show "\<exists>s. state (optimizer (train_batch nt model (start_training model learning_rate w) batch)) a
                    = Some s
                \<and> step_count s = 1"
    by (intro first_step_counts) simp_all
qed

theorem optimizer_fresh_parameters_warm_witness:
  "\<exists>s. state (optimizer (train_batch
            \<lparr>forward_backward = (\<lambda>ps batch r. (Fin (- hd (hd ps)), [[1]], r)),
             manual_seed = (\<lambda>seed. ())\<rparr>
            \<lparr>named_parameters = [(''fc.bias'', 0)]\<rparr>
            (start_training \<lparr>named_parameters = [(''fc.bias'', 0)]\<rparr> (3 / 10000)
               \<lparr>store = (\<lambda>a. [0]), rng = (),
                optimizer = \<lparr>params = [0], lr = 1,
                             state = [0 \<mapsto> \<lparr>step_count = 7, exp_avg = [1], exp_avg_sq = [1]\<rparr>]\<rparr>,
                loss = None, best_loss = NaN, wait = 0, best_model_state = []\<rparr>)
            ())) 0 = Some s
      \<and> step_count s = 1"
  using optimizer_fresh_parameters_warm
    [where nt = "\<lparr>forward_backward = (\<lambda>ps batch r. (Fin (- hd (hd ps)), [[1]], r)),
                 manual_seed = (\<lambda>seed. ())\<rparr>"
       and model = "\<lparr>named_parameters = [(''fc.bias'', 0)]\<rparr>"
       and learning_rate = "3 / 10000" and batch = "()"
       and w = "\<lparr>store = (\<lambda>a. [0]), rng = (),
                 optimizer = \<lparr>params = [0], lr = 1,
                              state = [0 \<mapsto> \<lparr>step_count = 7, exp_avg = [1], exp_avg_sq = [1]\<rparr>]\<rparr>,
                 loss = None, best_loss = NaN, wait = 0, best_model_state = []\<rparr>"]
  by (simp add: parameters_def)

end
